theory Spec2Isabelle
  imports Main "HOL-Library.Word"
begin

section \<open>Data\<close>

text \<open>
  Python \<open>bytes\<close> are sequences of 8-bit values; a Python \<open>str\<close> is a sequence of
  Unicode code points, kept here as natural numbers.
\<close>

type_synonym byte = "8 word"
type_synonym bytes = "byte list"
type_synonym str = "nat list"

text \<open>
  Exceptions raised by the library calls the function makes (\<open>Popen\<close>, \<open>select\<close>,
  \<open>os.read\<close>, \<open>wait\<close>, \<open>terminate\<close>, \<open>kill\<close>): an \<open>OSError\<close> with its errno, or
  \<open>subprocess.TimeoutExpired\<close>, which derive from \<open>Exception\<close>; or what a signal that
  arrives during the call raises, \<open>KeyboardInterrupt\<close> (Ctrl-C) or \<open>SystemExit\<close> (a
  handler that calls \<open>sys.exit\<close>), which derive from \<open>BaseException\<close> only.
\<close>

datatype fault = OSError nat | TimeoutExpired | KeyboardInterrupt | SystemExit

text \<open>
  Everything the code can raise. \<open>CalledProcessError\<close> carries \<open>returncode\<close>, \<open>cmd\<close>,
  \<open>output\<close> and \<open>stderr\<close>, in the order of the source's keyword arguments.
\<close>

datatype exn =
    LibraryError fault
  | UnicodeDecodeError
  | IndexError
  | ValueError
  | CalledProcessError int "string list" "bytes option" "bytes option"

text \<open>
  The test that \<open>except Exception\<close> makes: every exception of the model but
  \<open>KeyboardInterrupt\<close> and \<open>SystemExit\<close> is an instance of \<open>Exception\<close>.
\<close>

fun is_Exception :: "exn \<Rightarrow> bool" where
  "is_Exception (LibraryError KeyboardInterrupt) = False"
| "is_Exception (LibraryError SystemExit) = False"
| "is_Exception e = True"

text \<open>The \<open>errors=\<close> argument of \<open>bytes.decode\<close>.\<close>

datatype errors = Strict | Backslashreplace

section \<open>\<open>_safe_decode\<close>\<close>

definition prepend :: "str \<Rightarrow> exn + str \<Rightarrow> exn + str" where
  "prepend s r = (case r of Inl e \<Rightarrow> Inl e | Inr t \<Rightarrow> Inr (s @ t))"

definition is_continuation :: "byte \<Rightarrow> bool" where
  "is_continuation b = (0x80 \<le> b \<and> b \<le> 0xBF)"

definition in_range :: "byte \<Rightarrow> byte \<Rightarrow> byte \<Rightarrow> bool" where
  "in_range lo hi b = (lo \<le> b \<and> b \<le> hi)"

text \<open>
  \<open>bytes.decode(encoding='utf-8', errors='strict')\<close>: well-formed UTF-8 only (no overlong
  forms, no surrogates, nothing above U+10FFFF); the first ill-formed sequence raises
  \<open>UnicodeDecodeError\<close>.
\<close>

fun utf_8_decode :: "bytes \<Rightarrow> exn + str" where
  "utf_8_decode [] = Inr []"
| "utf_8_decode (b0 # bs) =
     (if b0 < 0x80 then prepend [unat b0] (utf_8_decode bs)
      else if in_range 0xC2 0xDF b0 then
        (case bs of
           b1 # r \<Rightarrow>
             if is_continuation b1
             then prepend [(unat b0 mod 32) * 64 + unat b1 mod 64] (utf_8_decode r)
             else Inl UnicodeDecodeError
         | _ \<Rightarrow> Inl UnicodeDecodeError)
      else if in_range 0xE0 0xEF b0 then
        (case bs of
           b1 # b2 # r \<Rightarrow>
             if in_range (if b0 = 0xE0 then 0xA0 else 0x80) (if b0 = 0xED then 0x9F else 0xBF) b1
                \<and> is_continuation b2
             then prepend [((unat b0 mod 16) * 64 + unat b1 mod 64) * 64 + unat b2 mod 64]
                    (utf_8_decode r)
             else Inl UnicodeDecodeError
         | _ \<Rightarrow> Inl UnicodeDecodeError)
      else if in_range 0xF0 0xF4 b0 then
        (case bs of
           b1 # b2 # b3 # r \<Rightarrow>
             if in_range (if b0 = 0xF0 then 0x90 else 0x80) (if b0 = 0xF4 then 0x8F else 0xBF) b1
                \<and> is_continuation b2 \<and> is_continuation b3
             then prepend
                    [(((unat b0 mod 8) * 64 + unat b1 mod 64) * 64 + unat b2 mod 64) * 64
                       + unat b3 mod 64]
                    (utf_8_decode r)
             else Inl UnicodeDecodeError
         | _ \<Rightarrow> Inl UnicodeDecodeError)
      else Inl UnicodeDecodeError)"

text \<open>The code point of a lower-case hexadecimal digit.\<close>

definition hex_digit :: "nat \<Rightarrow> nat" where
  "hex_digit n = (if n < 10 then 48 + n else 87 + n)"

text \<open>The replacement \<open>\xNN\<close> that the \<open>backslashreplace\<close> handler gives for one byte.\<close>

definition backslash_escape :: "byte \<Rightarrow> str" where
  "backslash_escape b = [92, 120, hex_digit (unat b div 16), hex_digit (unat b mod 16)]"

text \<open>
  \<open>bytes.decode(encoding='ascii', errors=...)\<close>: a byte below 128 is its own code point;
  any other byte raises under \<open>strict\<close> and is replaced under \<open>backslashreplace\<close>.
\<close>

fun ascii_decode :: "errors \<Rightarrow> bytes \<Rightarrow> exn + str" where
  "ascii_decode errs [] = Inr []"
| "ascii_decode errs (b # bs) =
     (if b < 0x80 then prepend [unat b] (ascii_decode errs bs)
      else (case errs of
              Strict \<Rightarrow> Inl UnicodeDecodeError
            | Backslashreplace \<Rightarrow> prepend (backslash_escape b) (ascii_decode errs bs)))"

text \<open>
  \<open>_safe_decode\<close>: the \<open>try\<close> returns the strict UTF-8 decoding; the handler catches
  \<open>UnicodeDecodeError\<close> only and returns the ASCII decoding with \<open>backslashreplace\<close>.
\<close>

definition safe_decode :: "bytes \<Rightarrow> exn + str" where
  "safe_decode output_bytes =
     (case utf_8_decode output_bytes of
        Inr s \<Rightarrow> Inr s
      | Inl e \<Rightarrow>
          if e = UnicodeDecodeError then ascii_decode Backslashreplace output_bytes
          else Inl e)"

section \<open>\<open>LineLogger\<close>\<close>

text \<open>
  The two logger callbacks are \<open>LOGGER.debug\<close> and \<open>LOGGER.warning\<close>; calling one appends
  a record with its level to the log.
\<close>

datatype level = DEBUG | WARNING

type_synonym log = "(level \<times> str) list"

record LineLogger =
  buffer :: bytes
  logger :: level

definition LineLogger_init :: "level \<Rightarrow> LineLogger" where
  "LineLogger_init lg = \<lparr>buffer = [], logger = lg\<rparr>"

text \<open>\<open>bytes.split(sep)\<close> for a one-byte separator: never an empty list.\<close>

fun bytes_split :: "bytes \<Rightarrow> byte \<Rightarrow> bytes list" where
  "bytes_split [] sep = [[]]"
| "bytes_split (x # xs) sep =
     (if x = sep then [] # bytes_split xs sep
      else (case bytes_split xs sep of
              [] \<Rightarrow> [[x]]
            | l # ls \<Rightarrow> (x # l) # ls))"

text \<open>\<open>list.pop()\<close>: the last element and the list without it; \<open>IndexError\<close> when empty.\<close>

definition list_pop :: "'a list \<Rightarrow> exn + ('a \<times> 'a list)" where
  "list_pop xs = (if xs = [] then Inl IndexError else Inr (last xs, butlast xs))"

definition newline :: byte where
  "newline = 0x0A"

text \<open>
  The loop \<open>for line in lines: self.logger(_safe_decode(line))\<close>. An exception leaves
  the records already written in the log.
\<close>

fun log_lines :: "level \<Rightarrow> bytes list \<Rightarrow> log \<Rightarrow> exn option \<times> log" where
  "log_lines lv [] lg = (None, lg)"
| "log_lines lv (line # lines) lg =
     (case safe_decode line of
        Inl e \<Rightarrow> (Some e, lg)
      | Inr s \<Rightarrow> log_lines lv lines (lg @ [(lv, s)]))"

text \<open>\<open>LineLogger.log\<close>: the updated object, the log, and the exception raised, if any.\<close>

definition LineLogger_log :: "LineLogger \<Rightarrow> bytes \<Rightarrow> log \<Rightarrow> exn option \<times> LineLogger \<times> log" where
  "LineLogger_log self data lg =
     (let self1 = self\<lparr>buffer := buffer self @ data\<rparr>;
          lines = bytes_split (buffer self1) newline
      in case list_pop lines of
           Inl e \<Rightarrow> (Some e, self1, lg)
         | Inr (lst, lines') \<Rightarrow>
             (case log_lines (logger self1) lines' lg of
                (r, lg') \<Rightarrow> (r, self1\<lparr>buffer := lst\<rparr>, lg')))"

text \<open>\<open>LineLogger.flush\<close>.\<close>

definition LineLogger_flush :: "LineLogger \<Rightarrow> log \<Rightarrow> exn option \<times> LineLogger \<times> log" where
  "LineLogger_flush self lg =
     (if length (buffer self) > 0 then
        (case safe_decode (buffer self) of
           Inl e \<Rightarrow> (Some e, self, lg)
         | Inr s \<Rightarrow> (None, self\<lparr>buffer := []\<rparr>, lg @ [(logger self, s)]))
      else (None, self, lg))"

text \<open>
  A driver for the object alone: one \<open>log\<close> call per chunk, in order, stopping at the
  first exception. This is how the drain loop uses the object of one stream when live
  logging is on.
\<close>

fun log_chunks :: "LineLogger \<Rightarrow> bytes list \<Rightarrow> log \<Rightarrow> exn option \<times> LineLogger \<times> log" where
  "log_chunks self [] lg = (None, self, lg)"
| "log_chunks self (data # rest) lg =
     (case LineLogger_log self data lg of
        (Some e, self', lg') \<Rightarrow> (Some e, self', lg')
      | (None, self', lg') \<Rightarrow> log_chunks self' rest lg')"

section \<open>The child process and the operating system\<close>

text \<open>
  The two pipes of the child, standing for their file descriptors, which are the keys
  of \<open>fds_map\<close>.
\<close>

datatype stream = Stdout | Stderr

text \<open>
  What the library calls do is an input of the model. \<open>select_results\<close> holds what the
  successive \<open>select.select\<close> calls give: an exception, or the streams that are ready
  (when the list runs out, \<open>select\<close> blocks for ever). \<open>read_results\<close> holds, for each
  stream, what the successive \<open>os.read\<close> calls on it give; when that list runs out the
  stream is at end-of-file and \<open>os.read\<close> returns \<open>b''\<close>. \<open>wait_result\<close> is what
  \<open>process.wait()\<close> does in the body of the \<open>try\<close>: \<open>None\<close> when the child never exits,
  else an exception or the exit code. \<open>exit_wait_result\<close> is the same for the \<open>wait()\<close>
  that \<open>Popen.__exit__\<close> makes when the child has not been waited for with success
  before. \<open>exit_skips_wait\<close> tells which \<open>Popen\<close> it is: from Python 3.7 on
  \<open>Popen.__exit__\<close> does not call \<open>wait()\<close> when the block is left by
  \<open>KeyboardInterrupt\<close>; in Python 3.5, the version that \<open>setup.py\<close> names, it calls it
  on every path. The arguments \<open>cwd\<close> and \<open>env\<close> of \<open>run_subprocess\<close> only reach \<open>Popen\<close>,
  so they are part of this behaviour too.
\<close>

record child =
  popen_result :: "fault option"
  select_results :: "(fault + stream list) list"
  read_results :: "stream \<Rightarrow> (fault + bytes) list"
  wait_result :: "(fault + int) option"
  terminate_result :: "fault option"
  wait_timeout_result :: "fault + int"
  kill_result :: "fault option"
  exit_wait_result :: "(fault + int) option"
  exit_skips_wait :: bool

text \<open>
  The library calls made, in order, with what the reads and selects returned. \<open>Wait\<close>
  is a call of \<open>process.wait\<close> by \<open>run_subprocess\<close> itself, with its timeout; \<open>ExitWait\<close>
  is the call \<open>self.wait()\<close>, with no timeout, that \<open>Popen.__exit__\<close> makes when the
  \<open>with\<close> block is left.
\<close>

datatype action =
    Select "fault + stream list"
  | Read stream nat "fault + bytes"
  | Wait "nat option"
  | Terminate
  | Kill
  | ExitWait

text \<open>
  The state outside the function: the reads still to come on each stream, the log
  records written, and the calls made so far.
\<close>

record world =
  reads :: "stream \<Rightarrow> (fault + bytes) list"
  log :: log
  trace :: "action list"

definition os_read :: "stream \<Rightarrow> nat \<Rightarrow> world \<Rightarrow> (fault + bytes) \<times> world" where
  "os_read fd n w =
     (let r = (case reads w fd of [] \<Rightarrow> Inr [] | x # xs \<Rightarrow> x)
      in (r, w\<lparr>reads := (reads w)(fd := tl (reads w fd)), trace := trace w @ [Read fd n r]\<rparr>))"

section \<open>\<open>run_subprocess\<close>\<close>

text \<open>
  The local variables of the drain loop: \<open>fds\<close>, and the two components of the pairs
  in \<open>fds_map\<close> (the \<open>LineLogger\<close> and the list \<open>stdout_list\<close> or \<open>stderr_list\<close> of each
  file descriptor).
\<close>

record locals =
  fds :: "stream list"
  loggers :: "stream \<Rightarrow> LineLogger"
  lists :: "stream \<Rightarrow> bytes list"

text \<open>\<open>list.remove(x)\<close>: drops the first occurrence; \<open>ValueError\<close> when there is none.\<close>

definition list_remove :: "'a \<Rightarrow> 'a list \<Rightarrow> exn + 'a list" where
  "list_remove x xs = (if x \<in> set xs then Inr (remove1 x xs) else Inl ValueError)"

text \<open>The body of \<open>for fd in ret[0]\<close> for one file descriptor.\<close>

definition handle_fd :: "bool \<Rightarrow> stream \<Rightarrow> locals \<Rightarrow> world \<Rightarrow> (exn + locals) \<times> world" where
  "handle_fd log_output_live fd l w =
     (case os_read fd 8192 w of
        (Inl f, w1) \<Rightarrow> (Inl (LibraryError f), w1)
      | (Inr buff, w1) \<Rightarrow>
          if buff \<noteq> [] then
            (let l1 = l\<lparr>lists := (lists l)(fd := lists l fd @ [buff])\<rparr>
             in if log_output_live then
                  (case LineLogger_log (loggers l1 fd) buff (log w1) of
                     (r, lgr, lg) \<Rightarrow>
                       (case r of
                          Some e \<Rightarrow> (Inl e, w1\<lparr>log := lg\<rparr>)
                        | None \<Rightarrow> (Inr (l1\<lparr>loggers := (loggers l1)(fd := lgr)\<rparr>), w1\<lparr>log := lg\<rparr>)))
                else (Inr l1, w1))
          else
            (case list_remove fd (fds l) of
               Inl e \<Rightarrow> (Inl e, w1)
             | Inr fds' \<Rightarrow>
                 (let l1 = l\<lparr>fds := fds'\<rparr>
                  in case LineLogger_flush (loggers l1 fd) (log w1) of
                       (r, lgr, lg) \<Rightarrow>
                         (case r of
                            Some e \<Rightarrow> (Inl e, w1\<lparr>log := lg\<rparr>)
                          | None \<Rightarrow>
                              (Inr (l1\<lparr>loggers := (loggers l1)(fd := lgr)\<rparr>), w1\<lparr>log := lg\<rparr>)))))"

text \<open>The loop \<open>for fd in ret[0]\<close>.\<close>

fun for_ready :: "bool \<Rightarrow> stream list \<Rightarrow> locals \<Rightarrow> world \<Rightarrow> (exn + locals) \<times> world" where
  "for_ready log_output_live [] l w = (Inr l, w)"
| "for_ready log_output_live (fd # ret) l w =
     (case handle_fd log_output_live fd l w of
        (Inl e, w1) \<Rightarrow> (Inl e, w1)
      | (Inr l1, w1) \<Rightarrow> for_ready log_output_live ret l1 w1)"

text \<open>
  The loop \<open>while fds\<close>, one \<open>select\<close> per round. \<open>select\<close> returns the file descriptors
  of \<open>fds\<close> that are ready, in the order of \<open>fds\<close>. The result is \<open>None\<close> when the loop
  never ends: \<open>fds\<close> is not empty and \<open>select\<close> blocks for ever.
\<close>

fun drain :: "bool \<Rightarrow> (fault + stream list) list \<Rightarrow> locals \<Rightarrow> world
                \<Rightarrow> (exn + locals) option \<times> world" where
  "drain log_output_live [] l w = (if fds l = [] then (Some (Inr l), w) else (None, w))"
| "drain log_output_live (r # rs) l w =
     (if fds l = [] then (Some (Inr l), w)
      else (case r of
              Inl f \<Rightarrow> (Some (Inl (LibraryError f)), w\<lparr>trace := trace w @ [Select (Inl f)]\<rparr>)
            | Inr ready \<Rightarrow>
                (let ret = filter (\<lambda>fd. fd \<in> set ready) (fds l)
                 in case for_ready log_output_live ret l (w\<lparr>trace := trace w @ [Select (Inr ret)]\<rparr>) of
                      (Inl e, w1) \<Rightarrow> (Some (Inl e), w1)
                    | (Inr l1, w1) \<Rightarrow> drain log_output_live rs l1 w1)))"

text \<open>
  The locals before the loop. Without \<open>pipe_output\<close> there is no \<open>fds_map\<close> and no
  loop; the two lists are empty either way.
\<close>

definition init_locals :: "bool \<Rightarrow> locals" where
  "init_locals pipe_output =
     \<lparr>fds = (if pipe_output then [Stdout, Stderr] else []),
      loggers = (\<lambda>fd. case fd of Stdout \<Rightarrow> LineLogger_init DEBUG
                               | Stderr \<Rightarrow> LineLogger_init WARNING),
      lists = (\<lambda>fd. [])\<rparr>"

definition init_world :: "child \<Rightarrow> world" where
  "init_world c = \<lparr>reads = read_results c, log = [], trace = []\<rparr>"

text \<open>
  The body of the \<open>try\<close>: drain when \<open>pipe_output\<close>, then \<open>process.wait()\<close>, then join.
  It gives \<open>returncode\<close>, \<open>stdout\<close> and \<open>stderr\<close>, or the exception raised, or \<open>None\<close>
  when it never finishes.
\<close>

definition try_body :: "bool \<Rightarrow> bool \<Rightarrow> child \<Rightarrow> world
                          \<Rightarrow> (exn + int \<times> bytes option \<times> bytes option) option \<times> world" where
  "try_body log_output_live pipe_output c w =
     (case (if pipe_output then drain log_output_live (select_results c) (init_locals pipe_output) w
            else (Some (Inr (init_locals pipe_output)), w)) of
        (None, w1) \<Rightarrow> (None, w1)
      | (Some (Inl e), w1) \<Rightarrow> (Some (Inl e), w1)
      | (Some (Inr l), w1) \<Rightarrow>
          (let w2 = w1\<lparr>trace := trace w1 @ [Wait None]\<rparr>
           in case wait_result c of
                None \<Rightarrow> (None, w2)
              | Some (Inl f) \<Rightarrow> (Some (Inl (LibraryError f)), w2)
              | Some (Inr returncode) \<Rightarrow>
                  if pipe_output
                  then (Some (Inr (returncode, Some (concat (lists l Stdout)),
                                   Some (concat (lists l Stderr)))), w2)
                  else (Some (Inr (returncode, None, None)), w2)))"

text \<open>
  The handler \<open>except Exception\<close>: \<open>terminate()\<close>, \<open>wait(1)\<close>, \<open>kill()\<close> when that wait
  raises \<open>TimeoutExpired\<close>, then \<open>raise\<close>. No call of the handler is itself guarded
  except the wait, and that one against \<open>TimeoutExpired\<close> only. The result is the
  exception that leaves the handler, and whether \<open>wait(1)\<close> has returned, which sets
  \<open>process.returncode\<close>.
\<close>

definition cleanup :: "child \<Rightarrow> exn \<Rightarrow> world \<Rightarrow> exn \<times> bool \<times> world" where
  "cleanup c e w =
     (let w1 = w\<lparr>trace := trace w @ [Terminate]\<rparr>
      in case terminate_result c of
           Some f \<Rightarrow> (LibraryError f, False, w1)
         | None \<Rightarrow>
             (let w2 = w1\<lparr>trace := trace w1 @ [Wait (Some 1)]\<rparr>
              in case wait_timeout_result c of
                   Inr rc \<Rightarrow> (e, True, w2)
                 | Inl f \<Rightarrow>
                     if f = TimeoutExpired then
                       (let w3 = w2\<lparr>trace := trace w2 @ [Kill]\<rparr>
                        in case kill_result c of
                             Some k \<Rightarrow> (LibraryError k, False, w3)
                           | None \<Rightarrow> (e, False, w3))
                     else (LibraryError f, False, w2)))"

record CompletedProcess =
  args :: "string list"
  returncode :: int
  stdout :: "bytes option"
  stderr :: "bytes option"

text \<open>
  \<open>Popen.__exit__\<close>, which the \<open>with\<close> statement calls when its block is left, with
  the outcome that leaves the block. It calls \<open>self.wait()\<close> with no timeout: that
  returns at once when \<open>returncode\<close> is already set; else it blocks until the child
  exits, for ever if it never does, and an exception it raises replaces the outcome.
  The one exception is a \<open>Popen\<close> from Python 3.7 on when the block is left by
  \<open>KeyboardInterrupt\<close>: it returns without calling \<open>wait()\<close> (it waits for a fraction of
  a second at most), and the interrupt goes on.
\<close>

definition popen_exit :: "child \<Rightarrow> bool \<Rightarrow> exn + CompletedProcess \<Rightarrow> world
                            \<Rightarrow> (exn + CompletedProcess) option \<times> world" where
  "popen_exit c returncode_set outcome w =
     (if exit_skips_wait c \<and> outcome = Inl (LibraryError KeyboardInterrupt)
      then (Some outcome, w)
      else
        (let w1 = w\<lparr>trace := trace w @ [ExitWait]\<rparr>
         in if returncode_set then (Some outcome, w1)
            else (case exit_wait_result c of
                    None \<Rightarrow> (None, w1)
                  | Some (Inl f) \<Rightarrow> (Some (Inl (LibraryError f)), w1)
                  | Some (Inr rc) \<Rightarrow> (Some outcome, w1))))"

text \<open>
  \<open>run_subprocess(args, log_output_live, cwd, env, pipe_output)\<close>. The first component
  of the result is \<open>None\<close> when the call never returns, else the exception raised or
  the value returned; the second is the world it leaves. When \<open>Popen\<close> raises, the
  block is not entered. An exception of the \<open>try\<close> body enters the handler only when
  it is an instance of \<open>Exception\<close>. The \<open>raise\<close> of \<open>CalledProcessError\<close> is inside the
  \<open>with\<close> block and the \<open>return\<close> after it, so both come after \<open>Popen.__exit__\<close>.
\<close>

definition run_subprocess :: "string list \<Rightarrow> bool \<Rightarrow> bool \<Rightarrow> child
                                \<Rightarrow> (exn + CompletedProcess) option \<times> world" where
  "run_subprocess args' log_output_live pipe_output c =
     (case popen_result c of
        Some f \<Rightarrow> (Some (Inl (LibraryError f)), init_world c)
      | None \<Rightarrow>
          (case try_body log_output_live pipe_output c (init_world c) of
             (None, w) \<Rightarrow> (None, w)
           | (Some (Inl e), w) \<Rightarrow>
               if is_Exception e
               then (case cleanup c e w of
                       (e', returncode_set, w') \<Rightarrow> popen_exit c returncode_set (Inl e') w')
               else popen_exit c False (Inl e) w
           | (Some (Inr (rc, out, err)), w) \<Rightarrow>
               if rc \<noteq> 0
               then popen_exit c True (Inl (CalledProcessError rc args' out err)) w
               else popen_exit c True
                      (Inr \<lparr>args = args', returncode = rc, stdout = out, stderr = err\<rparr>) w))"

section \<open>Auxiliary functions for the statements\<close>

text \<open>What \<open>backslashreplace\<close> makes of a byte string, and what \<open>_safe_decode\<close> returns.\<close>

definition replaced :: "bytes \<Rightarrow> str" where
  "replaced bs = concat (map (\<lambda>b. if b < 0x80 then [unat b] else backslash_escape b) bs)"

definition decoded :: "bytes \<Rightarrow> str" where
  "decoded bs = (case utf_8_decode bs of Inr s \<Rightarrow> s | Inl e \<Rightarrow> replaced bs)"

text \<open>What the next \<open>os.read\<close> on a stream returns.\<close>

definition next_read :: "world \<Rightarrow> stream \<Rightarrow> fault + bytes" where
  "next_read w fd = (case reads w fd of [] \<Rightarrow> Inr [] | x # xs \<Rightarrow> x)"

text \<open>The bytes that the reads of a trace returned on one stream, in order.\<close>

fun chunk_of :: "stream \<Rightarrow> action \<Rightarrow> bytes" where
  "chunk_of fd (Read fd' n (Inr b)) = (if fd' = fd then b else [])"
| "chunk_of fd a = []"

definition bytes_read :: "stream \<Rightarrow> action list \<Rightarrow> bytes" where
  "bytes_read fd tr = concat (map (chunk_of fd) tr)"

text \<open>The calls of the drain loop.\<close>

fun is_io :: "action \<Rightarrow> bool" where
  "is_io (Select r) = True"
| "is_io (Read fd n r) = True"
| "is_io a = False"

text \<open>Exceptions that come from a library call.\<close>

fun is_library_error :: "exn \<Rightarrow> bool" where
  "is_library_error (LibraryError f) = True"
| "is_library_error e = False"

text \<open>
  The invariant of the drain loop: only selects and reads so far, \<open>fds\<close> has no
  duplicates, each list holds what was read on its stream, and a stream that has left
  \<open>fds\<close> has reported end-of-file; an exception is one of a library call.
\<close>

definition drain_inv :: "(exn + locals) \<Rightarrow> world \<Rightarrow> bool" where
  "drain_inv r w =
     (list_all is_io (trace w) \<and>
      (case r of
         Inl e \<Rightarrow> is_library_error e
       | Inr l \<Rightarrow>
           distinct (fds l) \<and>
           (\<forall>fd. concat (lists l fd) = bytes_read fd (trace w)) \<and>
           (\<forall>fd. fd \<notin> set (fds l) \<longrightarrow> Read fd 8192 (Inr []) \<in> set (trace w))))"

text \<open>The calls that the exception handler makes.\<close>

definition cleanup_actions :: "child \<Rightarrow> action list" where
  "cleanup_actions c =
     Terminate #
       (if terminate_result c = None
        then Wait (Some 1) # (if wait_timeout_result c = Inl TimeoutExpired then [Kill] else [])
        else [])"

text \<open>
  A child whose library calls all succeed, given by its select results, the reads on
  its two streams and its exit code; a bounded wait on it would time out, and an
  unbounded one returns. The \<open>Popen\<close> is that of Python 3.5.
\<close>

definition child_of :: "(fault + stream list) list \<Rightarrow> (fault + bytes) list \<Rightarrow> (fault + bytes) list
                          \<Rightarrow> int \<Rightarrow> child" where
  "child_of sel outs errs rc =
     \<lparr>popen_result = None, select_results = sel,
      read_results = (\<lambda>fd. case fd of Stdout \<Rightarrow> outs | Stderr \<Rightarrow> errs),
      wait_result = Some (Inr rc), terminate_result = None,
      wait_timeout_result = Inl TimeoutExpired, kill_result = None,
      exit_wait_result = Some (Inr rc), exit_skips_wait = False\<rparr>"

text \<open>A child that writes \<open>hello\n\<close> to its standard output and exits with the given code.\<close>

definition hello_child :: "int \<Rightarrow> child" where
  "hello_child rc =
     child_of [Inr [Stdout, Stderr], Inr [Stdout, Stderr]]
       [Inr [0x68, 0x65, 0x6C, 0x6C, 0x6F, 0x0A]] [] rc"

text \<open>A child that writes the bytes \<open>\xff\n\<close> to its standard output and exits with 0.\<close>

definition malformed_child :: child where
  "malformed_child =
     child_of [Inr [Stdout, Stderr], Inr [Stdout, Stderr]] [Inr [0xFF, 0x0A]] [] 0"

text \<open>
  The records that a fresh \<open>LineLogger\<close> has written after one \<open>log\<close> call per chunk,
  and after the \<open>flush\<close> that follows them.
\<close>

definition lines_during :: "level \<Rightarrow> bytes list \<Rightarrow> log" where
  "lines_during lv cs = snd (snd (log_chunks (LineLogger_init lv) cs []))"

definition lines_after_flush :: "level \<Rightarrow> bytes list \<Rightarrow> log" where
  "lines_after_flush lv cs =
     (case log_chunks (LineLogger_init lv) cs [] of
        (r, self, lg) \<Rightarrow> snd (snd (LineLogger_flush self lg)))"

text \<open>A child whose first read on standard output raises \<open>OSError\<close> with errno 5.\<close>

definition failing_read_child :: child where
  "failing_read_child = child_of [Inr [Stdout, Stderr]] [Inl (OSError 5)] [] 0"

text \<open>
  A child whose first read on standard output raises \<open>OSError\<close> with errno 5, and which
  exits on the signal of \<open>terminate()\<close> within the second: its exit code is \<open>-15\<close>.
\<close>

definition terminated_child :: child where
  "terminated_child =
     (child_of [Inr [Stdout, Stderr]] [Inl (OSError 5)] [] (- 15))\<lparr>wait_timeout_result := Inr (- 15)\<rparr>"

text \<open>The call returned a value or raised \<open>CalledProcessError\<close>.\<close>

fun completed :: "(exn + CompletedProcess) option \<Rightarrow> bool" where
  "completed (Some (Inr cp)) = True"
| "completed (Some (Inl (CalledProcessError rc a out err))) = True"
| "completed r = False"

text \<open>The exception that leaves the handler when it was entered with \<open>e\<close>.\<close>

definition cleanup_raises :: "child \<Rightarrow> exn \<Rightarrow> exn" where
  "cleanup_raises c e =
     (case terminate_result c of
        Some f \<Rightarrow> LibraryError f
      | None \<Rightarrow>
          (case wait_timeout_result c of
             Inr rc \<Rightarrow> e
           | Inl f \<Rightarrow>
               if f = TimeoutExpired
               then (case kill_result c of Some k \<Rightarrow> LibraryError k | None \<Rightarrow> e)
               else LibraryError f))"

text \<open>Whether the handler has set \<open>process.returncode\<close>: \<open>wait(1)\<close> has returned.\<close>

definition cleanup_reaps :: "child \<Rightarrow> bool" where
  "cleanup_reaps c =
     (case terminate_result c of
        Some f \<Rightarrow> False
      | None \<Rightarrow> (case wait_timeout_result c of Inr rc \<Rightarrow> True | Inl f \<Rightarrow> False))"

text \<open>
  What reaches the caller when the \<open>with\<close> block is left with the exception \<open>x\<close> and
  the child has not been waited for with success: \<open>None\<close> when the call blocks.
\<close>

definition after_exit :: "child \<Rightarrow> exn \<Rightarrow> (exn + CompletedProcess) option" where
  "after_exit c x =
     (if exit_skips_wait c \<and> x = LibraryError KeyboardInterrupt then Some (Inl x)
      else (case exit_wait_result c of
              None \<Rightarrow> None
            | Some (Inl f) \<Rightarrow> Some (Inl (LibraryError f))
            | Some (Inr rc) \<Rightarrow> Some (Inl x)))"

text \<open>The calls that \<open>Popen.__exit__\<close> makes when the block is left with the exception \<open>x\<close>.\<close>

definition exit_actions :: "child \<Rightarrow> exn \<Rightarrow> action list" where
  "exit_actions c x =
     (if exit_skips_wait c \<and> x = LibraryError KeyboardInterrupt then [] else [ExitWait])"

text \<open>
  A child during whose first \<open>select\<close> the user presses Ctrl-C, and which exits with
  code \<open>-2\<close> when it is waited for.
\<close>

definition interrupted_child :: child where
  "interrupted_child = child_of [Inl KeyboardInterrupt] [] [] (- 2)"

text \<open>A call of \<open>wait\<close> with no timeout, by the function or by \<open>Popen.__exit__\<close>.\<close>

fun unbounded_wait :: "action \<Rightarrow> bool" where
  "unbounded_wait (Wait None) = True"
| "unbounded_wait ExitWait = True"
| "unbounded_wait a = False"

text \<open>The number of \<open>select\<close> results in which a stream is ready.\<close>

definition rounds :: "stream \<Rightarrow> stream list list \<Rightarrow> nat" where
  "rounds fd readys = length (filter (\<lambda>ready. fd \<in> set ready) readys)"

text \<open>The number of reads that a stream still needs before it has left \<open>fds\<close>.\<close>

definition need :: "locals \<Rightarrow> world \<Rightarrow> stream \<Rightarrow> nat" where
  "need l w fd = (if fd \<in> set (fds l) then Suc (length (reads w fd)) else 0)"

text \<open>
  The invariant of the drain loop when every read succeeds and returns a non-empty
  chunk until the stream ends: what has been appended for a stream, followed by what
  is still to be read on it, is all that the stream delivers.
\<close>

definition scripted :: "(stream \<Rightarrow> bytes) \<Rightarrow> locals \<Rightarrow> world \<Rightarrow> bool" where
  "scripted tot l w =
     (distinct (fds l) \<and>
      (\<forall>fd. \<exists>ps. reads w fd = map Inr ps \<and> [] \<notin> set ps \<and>
                  concat (lists l fd) @ concat ps = tot fd \<and>
                  (fd \<notin> set (fds l) \<longrightarrow> ps = [])))"

text \<open>
  A child that is ready as the first list says, delivers the chunks of the second list
  on standard output and those of the third on standard error, and exits with 0.
\<close>

definition chunked_child :: "stream list list \<Rightarrow> bytes list \<Rightarrow> bytes list \<Rightarrow> child" where
  "chunked_child readys cs_out cs_err = child_of (map Inr readys) (map Inr cs_out) (map Inr cs_err) 0"

text \<open>
  Two states of the drain loop agree when they differ at most in the line buffers and
  in the log: same outcome, same \<open>fds\<close>, same captured chunks, same reads to come, same
  calls made.
\<close>

definition agree :: "(exn + locals) option \<times> world \<Rightarrow> (exn + locals) option \<times> world \<Rightarrow> bool" where
  "agree x y =
     (reads (snd x) = reads (snd y) \<and> trace (snd x) = trace (snd y) \<and>
      (case fst x of
         None \<Rightarrow> fst y = None
       | Some (Inl e) \<Rightarrow> fst y = Some (Inl e)
       | Some (Inr l) \<Rightarrow>
           (case fst y of
              Some (Inr l') \<Rightarrow> fds l = fds l' \<and> lists l = lists l'
            | _ \<Rightarrow> False)))"

text \<open>The invariant of the drain loop without live logging: empty line buffers, empty log.\<close>

definition quiet :: "(exn + locals) \<Rightarrow> world \<Rightarrow> bool" where
  "quiet r w =
     (drain_inv r w \<and> log w = [] \<and>
      (case r of Inl e \<Rightarrow> True | Inr l \<Rightarrow> \<forall>fd. buffer (loggers l fd) = []))"

section \<open>Decoding\<close>

lemma ascii_decode_replace: "ascii_decode Backslashreplace bs = Inr (replaced bs)"
  by (induction bs) (simp_all add: replaced_def prepend_def)

lemma prepend_Inl: "prepend s r = Inl e \<Longrightarrow> r = Inl e"
  by (cases r) (simp_all add: prepend_def)

lemma utf_8_decode_raises: "utf_8_decode bs = Inl e \<Longrightarrow> e = UnicodeDecodeError"
proof (induction bs arbitrary: e rule: utf_8_decode.induct)
  case 1
  then show ?case by simp
next
  case (2 b0 bs)
  show ?case
  proof (cases "b0 < 0x80")
    case True
    with "2.prems" have "utf_8_decode bs = Inl e" by (simp add: prepend_Inl)
    with True "2.IH"(1) show ?thesis by blast
  next
    case n1: False
    show ?thesis
    proof (cases "in_range 0xC2 0xDF b0")
      case True
      show ?thesis
      proof (cases bs)
        case Nil
        with n1 True "2.prems" show ?thesis by simp
      next
        case (Cons b1 r)
        show ?thesis
        proof (cases "is_continuation b1")
          case c: True
          with n1 True Cons "2.prems" have "utf_8_decode r = Inl e" by (simp add: prepend_Inl)
          with n1 True Cons c "2.IH"(2) show ?thesis by blast
        next
          case False
          with n1 True Cons "2.prems" show ?thesis by simp
        qed
      qed
    next
      case n2: False
      show ?thesis
      proof (cases "in_range 0xE0 0xEF b0")
        case True
        show ?thesis
        proof (cases "\<exists>b1 b2 r. bs = b1 # b2 # r")
          case False
          with n1 n2 True "2.prems" show ?thesis by (simp split: list.splits)
        next
          case t: True
          then obtain b1 b2 r where bs: "bs = b1 # b2 # r" by blast
          let ?g = "in_range (if b0 = 0xE0 then 0xA0 else 0x80) (if b0 = 0xED then 0x9F else 0xBF) b1
                \<and> is_continuation b2"
          show ?thesis
          proof (cases ?g)
            case g: True
            with n1 n2 True bs "2.prems" have "utf_8_decode r = Inl e"
              by (simp add: prepend_Inl del: utf_8_decode.simps add: utf_8_decode.simps(2)[of b0])
            with n1 n2 True bs g "2.IH"(3)[of b1 "b2 # r" b2 r] show ?thesis by blast
          next
            case False
            with n1 n2 True bs "2.prems" show ?thesis
              by (simp del: utf_8_decode.simps add: utf_8_decode.simps(2)[of b0])
          qed
        qed
      next
        case n3: False
        show ?thesis
        proof (cases "in_range 0xF0 0xF4 b0")
          case False
          with n1 n2 n3 "2.prems" show ?thesis by simp
        next
          case True
          show ?thesis
          proof (cases "\<exists>b1 b2 b3 r. bs = b1 # b2 # b3 # r")
            case False
            with n1 n2 n3 True "2.prems" show ?thesis by (simp split: list.splits)
          next
            case t: True
            then obtain b1 b2 b3 r where bs: "bs = b1 # b2 # b3 # r" by blast
            let ?g = "in_range (if b0 = 0xF0 then 0x90 else 0x80) (if b0 = 0xF4 then 0x8F else 0xBF) b1
                \<and> is_continuation b2 \<and> is_continuation b3"
            show ?thesis
            proof (cases ?g)
              case g: True
              with n1 n2 n3 True bs "2.prems" have "utf_8_decode r = Inl e"
                by (simp add: prepend_Inl del: utf_8_decode.simps add: utf_8_decode.simps(2)[of b0])
              with n1 n2 n3 True bs g "2.IH"(4)[of b1 "b2 # b3 # r" b2 "b3 # r" b3 r] show ?thesis by blast
            next
              case False
              with n1 n2 n3 True bs "2.prems" show ?thesis
                by (simp del: utf_8_decode.simps add: utf_8_decode.simps(2)[of b0])
            qed
          qed
        qed
      qed
    qed
  qed
qed

lemma safe_decode_decoded: "safe_decode bs = Inr (decoded bs)"
proof (cases "utf_8_decode bs")
  case (Inl e)
  then have "e = UnicodeDecodeError" by (rule utf_8_decode_raises)
  with Inl show ?thesis by (simp add: safe_decode_def decoded_def ascii_decode_replace)
next
  case (Inr s)
  then show ?thesis by (simp add: safe_decode_def decoded_def)
qed

section \<open>Splitting and the line buffer\<close>

lemma bytes_split_nonempty: "bytes_split xs sep \<noteq> []"
  by (induction xs) (simp_all split: list.split)

lemma bytes_split_append:
  "bytes_split (xs @ ys) sep =
     butlast (bytes_split xs sep) @ bytes_split (last (bytes_split xs sep) @ ys) sep"
proof (induction xs)
  case Nil
  show ?case by simp
next
  case (Cons x xs)
  obtain l ls where s: "bytes_split xs sep = l # ls"
    using bytes_split_nonempty[of xs sep] by (cases "bytes_split xs sep") simp_all
  show ?case
  proof (cases "x = sep")
    case True
    then show ?thesis using Cons s by simp
  next
    case False
    show ?thesis
    proof (cases ls)
      case Nil
      then show ?thesis using False Cons s by simp
    next
      case (Cons a as)
      then show ?thesis using False Cons.IH s by simp
    qed
  qed
qed

lemma bytes_split_no_sep: "l \<in> set (bytes_split xs sep) \<Longrightarrow> sep \<notin> set l"
proof (induction xs arbitrary: l)
  case Nil
  then show ?case by simp
next
  case (Cons x xs)
  obtain k ks where s: "bytes_split xs sep = k # ks"
    using bytes_split_nonempty[of xs sep] by (cases "bytes_split xs sep") simp_all
  show ?case
  proof (cases "x = sep")
    case True
    with Cons.prems have "l = [] \<or> l \<in> set (bytes_split xs sep)" by simp
    then show ?thesis using Cons.IH by auto
  next
    case False
    with Cons.prems s have "l = x # k \<or> l \<in> set ks" by simp
    moreover have "sep \<notin> set k" using Cons.IH[of k] s by simp
    moreover have "l \<in> set ks \<Longrightarrow> sep \<notin> set l" using Cons.IH[of l] s by simp
    ultimately show ?thesis using False by auto
  qed
qed

lemma bytes_split_join:
  "concat (map (\<lambda>l. l @ [sep]) (butlast (bytes_split xs sep))) @ last (bytes_split xs sep) = xs"
proof (induction xs)
  case Nil
  show ?case by simp
next
  case (Cons x xs)
  obtain k ks where s: "bytes_split xs sep = k # ks"
    using bytes_split_nonempty[of xs sep] by (cases "bytes_split xs sep") simp_all
  show ?case
  proof (cases "x = sep")
    case True
    then show ?thesis using Cons s by simp
  next
    case False
    then show ?thesis using Cons s by (cases ks) simp_all
  qed
qed

lemma length_bytes_split: "length (bytes_split xs sep) = Suc (count_list xs sep)"
proof (induction xs)
  case Nil
  show ?case by simp
next
  case (Cons x xs)
  obtain k ks where s: "bytes_split xs sep = k # ks"
    using bytes_split_nonempty[of xs sep] by (cases "bytes_split xs sep") simp_all
  show ?case using Cons s by simp
qed

lemma bytes_split_no_sep_id: "sep \<notin> set xs \<Longrightarrow> bytes_split xs sep = [xs]"
  by (induction xs) auto

lemma log_lines_eq:
  "log_lines lv ls lg = (None, lg @ map (\<lambda>l. (lv, decoded l)) ls)"
  by (induction ls arbitrary: lg) (simp_all add: safe_decode_decoded)

lemma LineLogger_log_eq:
  "LineLogger_log self data lg =
     (None, self\<lparr>buffer := last (bytes_split (buffer self @ data) newline)\<rparr>,
      lg @ map (\<lambda>l. (logger self, decoded l)) (butlast (bytes_split (buffer self @ data) newline)))"
  by (simp add: LineLogger_log_def list_pop_def bytes_split_nonempty log_lines_eq Let_def)

lemma LineLogger_flush_eq:
  "LineLogger_flush self lg =
     (None, self\<lparr>buffer := []\<rparr>,
      lg @ (if buffer self = [] then [] else [(logger self, decoded (buffer self))]))"
  by (simp add: LineLogger_flush_def safe_decode_decoded)

lemma log_chunks_eq:
  "log_chunks self cs lg =
     (None, self\<lparr>buffer := last (bytes_split (buffer self @ concat cs) newline)\<rparr>,
      lg @ map (\<lambda>l. (logger self, decoded l)) (butlast (bytes_split (buffer self @ concat cs) newline)))"
  if "newline \<notin> set (buffer self)"
  using that
proof (induction cs arbitrary: self lg)
  case Nil
  then show ?case by (simp add: bytes_split_no_sep_id)
next
  case (Cons c cs)
  let ?s = "self\<lparr>buffer := last (bytes_split (buffer self @ c) newline)\<rparr>"
  have n: "newline \<notin> set (buffer ?s)"
    using bytes_split_no_sep[of "last (bytes_split (buffer self @ c) newline)" "buffer self @ c" newline]
      bytes_split_nonempty[of "buffer self @ c" newline] by simp
  have a: "bytes_split (buffer self @ c @ concat cs) newline =
      butlast (bytes_split (buffer self @ c) newline)
        @ bytes_split (last (bytes_split (buffer self @ c) newline) @ concat cs) newline"
    using bytes_split_append[of "buffer self @ c" "concat cs" newline] by simp
  have b: "bytes_split (last (bytes_split (buffer self @ c) newline) @ concat cs) newline \<noteq> []"
    by (rule bytes_split_nonempty)
  show ?case
    using Cons.IH[OF n] a b
    by (simp add: LineLogger_log_eq butlast_append)
qed

section \<open>The drain loop\<close>

lemma handle_fd_cases [case_names fault chunk eof absent]:
  obtains
    f w' where "next_read w fd = Inl f" "handle_fd live fd l w = (Inl (LibraryError f), w')"
      "reads w' = (reads w)(fd := tl (reads w fd))"
      "trace w' = trace w @ [Read fd 8192 (Inl f)]" "log w' = log w"
  | b l' w' where "next_read w fd = Inr b" "b \<noteq> []" "handle_fd live fd l w = (Inr l', w')"
      "fds l' = fds l" "lists l' = (lists l)(fd := lists l fd @ [b])"
      "reads w' = (reads w)(fd := tl (reads w fd))"
      "trace w' = trace w @ [Read fd 8192 (Inr b)]"
      "\<not> live \<Longrightarrow> log w' = log w \<and> loggers l' = loggers l"
  | l' w' where "next_read w fd = Inr []" "fd \<in> set (fds l)" "handle_fd live fd l w = (Inr l', w')"
      "fds l' = remove1 fd (fds l)" "lists l' = lists l"
      "reads w' = (reads w)(fd := tl (reads w fd))"
      "trace w' = trace w @ [Read fd 8192 (Inr [])]"
      "buffer (loggers l fd) = [] \<Longrightarrow> log w' = log w \<and> (\<forall>x. buffer (loggers l' x) = buffer (loggers l x))"
  | w' where "next_read w fd = Inr []" "fd \<notin> set (fds l)" "handle_fd live fd l w = (Inl ValueError, w')"
      "reads w' = (reads w)(fd := tl (reads w fd))"
      "trace w' = trace w @ [Read fd 8192 (Inr [])]" "log w' = log w"
proof -
  define res where "res = handle_fd live fd l w"
  show ?thesis
  proof (cases "next_read w fd")
    case (Inl f)
    then show ?thesis
      by (intro that(1)[of f "snd res"])
         (simp_all add: res_def handle_fd_def os_read_def next_read_def Let_def)
  next
    case (Inr b)
    show ?thesis
    proof (cases "b = []")
      case False
      with Inr show ?thesis
        by (intro that(2)[of b "projr (fst res)" "snd res"])
           (simp_all add: res_def handle_fd_def os_read_def next_read_def Let_def LineLogger_log_eq)
    next
      case True
      show ?thesis
      proof (cases "fd \<in> set (fds l)")
        case m: True
        with Inr True show ?thesis
          by (intro that(3)[of "projr (fst res)" "snd res"])
             (simp_all add: res_def handle_fd_def os_read_def next_read_def Let_def
                LineLogger_flush_eq list_remove_def)
      next
        case False
        with Inr True show ?thesis
          by (intro that(4)[of "snd res"])
             (simp_all add: res_def handle_fd_def os_read_def next_read_def Let_def list_remove_def)
      qed
    qed
  qed
qed

lemma handle_fd_fds:
  assumes "handle_fd live fd l w = (Inr l1, w1)"
  shows "fds l1 = fds l \<or> fds l1 = remove1 fd (fds l)"
  using assms by (cases rule: handle_fd_cases[of w fd live l]) simp_all

text \<open>
  Invariants of the two loops. \<open>select\<close> returns distinct members of \<open>fds\<close>, and handling
  one of them removes at most that one, so every file descriptor handled is in \<open>fds\<close>.
\<close>

lemma for_ready_rule:
  assumes "I (Inr l) w" and "distinct ret" and "set ret \<subseteq> set (fds l)"
    and step: "\<And>fd l w. I (Inr l) w \<Longrightarrow> fd \<in> set (fds l)
                 \<Longrightarrow> I (fst (handle_fd live fd l w)) (snd (handle_fd live fd l w))"
  shows "I (fst (for_ready live ret l w)) (snd (for_ready live ret l w))"
  using assms(1-3)
proof (induction ret arbitrary: l w)
  case Nil
  then show ?case by simp
next
  case (Cons fd ret)
  obtain r w1 where h: "handle_fd live fd l w = (r, w1)" by (cases "handle_fd live fd l w")
  have i: "I r w1" using step[OF Cons.prems(1), of fd] Cons.prems(3) h by simp
  show ?case
  proof (cases r)
    case (Inl e)
    with h i show ?thesis by simp
  next
    case (Inr l1)
    have "fds l1 = fds l \<or> fds l1 = remove1 fd (fds l)"
      using h Inr by (simp add: handle_fd_fds)
    moreover have "fd \<notin> set ret" "distinct ret" "set ret \<subseteq> set (fds l)"
      using Cons.prems(2,3) by simp_all
    ultimately have "set ret \<subseteq> set (fds l1)"
      by (metis in_set_remove1 subset_code(1))
    with \<open>distinct ret\<close> h i Inr Cons.IH[of l1 w1] show ?thesis by simp
  qed
qed

lemma drain_rule:
  assumes "I (Inr l) w"
    and dist: "\<And>l w. I (Inr l) w \<Longrightarrow> distinct (fds l)"
    and sel: "\<And>l w x. I (Inr l) w \<Longrightarrow> I (Inr l) (w\<lparr>trace := trace w @ [Select (Inr x)]\<rparr>)"
    and self: "\<And>l w f. I (Inr l) w
                 \<Longrightarrow> I (Inl (LibraryError f)) (w\<lparr>trace := trace w @ [Select (Inl f)]\<rparr>)"
    and step: "\<And>fd l w. I (Inr l) w \<Longrightarrow> fd \<in> set (fds l)
                 \<Longrightarrow> I (fst (handle_fd live fd l w)) (snd (handle_fd live fd l w))"
  shows "case drain live rs l w of
           (None, w') \<Rightarrow> \<exists>l'. fds l' \<noteq> [] \<and> I (Inr l') w'
         | (Some (Inl e), w') \<Rightarrow> I (Inl e) w'
         | (Some (Inr l'), w') \<Rightarrow> fds l' = [] \<and> I (Inr l') w'"
  using assms(1)
proof (induction rs arbitrary: l w)
  case Nil
  then show ?case by auto
next
  case (Cons r rs)
  show ?case
  proof (cases "fds l = []")
    case True
    with Cons.prems show ?thesis by simp
  next
    case ne: False
    show ?thesis
    proof (cases r)
      case (Inl f)
      with ne self[OF Cons.prems] show ?thesis by simp
    next
      case (Inr ready)
      let ?ret = "filter (\<lambda>fd. fd \<in> set ready) (fds l)"
      let ?w = "w\<lparr>trace := trace w @ [Select (Inr ?ret)]\<rparr>"
      obtain r1 w1 where f: "for_ready live ?ret l ?w = (r1, w1)" by (cases "for_ready live ?ret l ?w")
      have "distinct ?ret" using dist[OF Cons.prems] by simp
      moreover have "set ?ret \<subseteq> set (fds l)" by auto
      ultimately have i: "I r1 w1"
        using for_ready_rule[of I l ?w ?ret live, OF sel[OF Cons.prems] _ _ step] f by simp
      show ?thesis
      proof (cases r1)
        case (Inl e)
        with ne Inr f i show ?thesis by simp
      next
        case r: (Inr l1)
        with ne Inr f i Cons.IH[of l1 w1] show ?thesis by simp
      qed
    qed
  qed
qed

lemma bytes_read_snoc [simp]: "bytes_read fd (tr @ [a]) = bytes_read fd tr @ chunk_of fd a"
  by (simp add: bytes_read_def)

lemma bytes_read_Nil [simp]: "bytes_read fd [] = []"
  by (simp add: bytes_read_def)

lemma drain_inv_init: "drain_inv (Inr (init_locals True)) (init_world c)"
proof -
  have "fd \<in> set [Stdout, Stderr]" for fd by (cases fd) simp_all
  then show ?thesis by (simp add: drain_inv_def init_locals_def init_world_def)
qed

lemma drain_inv_distinct: "drain_inv (Inr l) w \<Longrightarrow> distinct (fds l)"
  by (simp add: drain_inv_def)

lemma drain_inv_select:
  "drain_inv (Inr l) w \<Longrightarrow> drain_inv (Inr l) (w\<lparr>trace := trace w @ [Select (Inr x)]\<rparr>)"
  by (simp add: drain_inv_def)

lemma drain_inv_select_fault:
  "drain_inv (Inr l) w
     \<Longrightarrow> drain_inv (Inl (LibraryError f)) (w\<lparr>trace := trace w @ [Select (Inl f)]\<rparr>)"
  by (simp add: drain_inv_def)

lemma drain_inv_step:
  assumes "drain_inv (Inr l) w" and "fd \<in> set (fds l)"
  shows "drain_inv (fst (handle_fd live fd l w)) (snd (handle_fd live fd l w))"
proof (cases rule: handle_fd_cases[of w fd live l])
  case (fault f w')
  with assms show ?thesis by (simp add: drain_inv_def)
next
  case (chunk b l' w')
  with assms show ?thesis by (simp add: drain_inv_def)
next
  case (eof l' w')
  with assms show ?thesis by (auto simp: drain_inv_def)
next
  case (absent w')
  with assms show ?thesis by simp
qed

lemma drain_inv_drain:
  assumes "drain live (select_results c) (init_locals True) (init_world c) = (r, w)"
  shows "list_all is_io (trace w)"
    and "\<And>e. r = Some (Inl e) \<Longrightarrow> is_library_error e"
    and "\<And>l. r = Some (Inr l) \<Longrightarrow>
           (\<forall>fd. concat (lists l fd) = bytes_read fd (trace w)) \<and>
           (\<forall>fd. Read fd 8192 (Inr []) \<in> set (trace w))"
proof -
  have d: "case drain live (select_results c) (init_locals True) (init_world c) of
           (None, w') \<Rightarrow> \<exists>l'. fds l' \<noteq> [] \<and> drain_inv (Inr l') w'
         | (Some (Inl e), w') \<Rightarrow> drain_inv (Inl e) w'
         | (Some (Inr l'), w') \<Rightarrow> fds l' = [] \<and> drain_inv (Inr l') w'"
    by (rule drain_rule[where I = drain_inv])
       (simp_all add: drain_inv_init drain_inv_distinct drain_inv_select drain_inv_select_fault
          drain_inv_step)
  show "list_all is_io (trace w)"
    using d assms by (auto simp: drain_inv_def split: option.splits sum.splits)
  show "is_library_error e" if "r = Some (Inl e)" for e
    using d assms that by (simp add: drain_inv_def)
  show "(\<forall>fd. concat (lists l fd) = bytes_read fd (trace w)) \<and>
           (\<forall>fd. Read fd 8192 (Inr []) \<in> set (trace w))" if "r = Some (Inr l)" for l
    using d assms that by (simp add: drain_inv_def)
qed

section \<open>The body of the try and the handler\<close>

lemma try_body_cases [consumes 1, case_names blocked raised waited]:
  assumes "try_body live pipe c (init_world c) = (r, w)"
  obtains
    (blocked) "pipe" "r = None" "list_all is_io (trace w)"
  | (raised) f where "pipe" "r = Some (Inl (LibraryError f))" "list_all is_io (trace w)"
  | (waited) pre where "trace w = pre @ [Wait None]" "list_all is_io pre"
      "pipe \<Longrightarrow> Read Stdout 8192 (Inr []) \<in> set pre \<and> Read Stderr 8192 (Inr []) \<in> set pre"
      "\<not> pipe \<Longrightarrow> pre = [] \<and> log w = [] \<and> reads w = read_results c"
      "r = (case wait_result c of
              None \<Rightarrow> None
            | Some (Inl f) \<Rightarrow> Some (Inl (LibraryError f))
            | Some (Inr rc) \<Rightarrow>
                Some (Inr (rc, if pipe then Some (bytes_read Stdout pre) else None,
                               if pipe then Some (bytes_read Stderr pre) else None)))"
proof (cases pipe)
  case False
  with assms show ?thesis
    by (intro waited[of "[]"])
       (auto simp: try_body_def init_world_def Let_def split: option.splits sum.splits)
next
  case True
  obtain d w1 where d: "drain live (select_results c) (init_locals True) (init_world c) = (d, w1)"
    by (cases "drain live (select_results c) (init_locals True) (init_world c)")
  note inv = drain_inv_drain[OF d]
  show ?thesis
  proof (cases d)
    case None
    with True d assms inv(1) show ?thesis
      by (intro blocked) (auto simp: try_body_def)
  next
    case (Some x)
    show ?thesis
    proof (cases x)
      case (Inl e)
      then obtain f where "e = LibraryError f"
        using inv(2)[of e] Some by (cases e) simp_all
      with Inl Some True d assms inv(1) show ?thesis
        by (intro raised[of f]) (auto simp: try_body_def)
    next
      case (Inr l)
      with Some True d assms inv(1) inv(3)[of l] show ?thesis
        by (intro waited[of "trace w1"])
           (auto simp: try_body_def Let_def split: option.splits sum.splits)
    qed
  qed
qed

lemma cleanup_eq:
  "cleanup c e w =
     (cleanup_raises c e, cleanup_reaps c, w\<lparr>trace := trace w @ cleanup_actions c\<rparr>)"
  by (simp add: cleanup_def cleanup_raises_def cleanup_reaps_def cleanup_actions_def Let_def
      split: option.splits sum.splits)

lemma cleanup_reaps_raises: "cleanup_reaps c \<Longrightarrow> cleanup_raises c e = e"
  by (simp add: cleanup_reaps_def cleanup_raises_def split: option.splits sum.splits)

lemma popen_exit_Inl:
  "popen_exit c b (Inl x) w =
     (if b then Some (Inl x) else after_exit c x, w\<lparr>trace := trace w @ exit_actions c x\<rparr>)"
  by (simp add: popen_exit_def after_exit_def exit_actions_def Let_def
      split: option.splits sum.splits)

lemma popen_exit_Inr:
  "popen_exit c True (Inr cp) w = (Some (Inr cp), w\<lparr>trace := trace w @ [ExitWait]\<rparr>)"
  by (simp add: popen_exit_def Let_def)

lemma exit_actions_CalledProcessError [simp]:
  "exit_actions c (CalledProcessError rc a out err) = [ExitWait]"
  by (simp add: exit_actions_def)

lemma run_subprocess_blocked:
  assumes "popen_result c = None"
    and "try_body live pipe c (init_world c) = (None, w1)"
  shows "run_subprocess args' live pipe c = (None, w1)"
  using assms by (simp add: run_subprocess_def)

lemma run_subprocess_raised:
  assumes "popen_result c = None"
    and "try_body live pipe c (init_world c) = (Some (Inl e), w1)"
  shows "run_subprocess args' live pipe c =
           (if is_Exception e
            then (if cleanup_reaps c then Some (Inl e) else after_exit c (cleanup_raises c e),
                  w1\<lparr>trace := trace w1 @ cleanup_actions c @ exit_actions c (cleanup_raises c e)\<rparr>)
            else (after_exit c e, w1\<lparr>trace := trace w1 @ exit_actions c e\<rparr>))"
  using assms
  by (simp add: run_subprocess_def cleanup_eq popen_exit_Inl cleanup_reaps_raises)

lemma run_subprocess_waited:
  assumes "popen_result c = None"
    and "try_body live pipe c (init_world c) = (Some (Inr (rc, out, err)), w1)"
  shows "run_subprocess args' live pipe c =
           (Some (if rc \<noteq> 0 then Inl (CalledProcessError rc args' out err)
                  else Inr \<lparr>args = args', returncode = 0, stdout = out, stderr = err\<rparr>),
            w1\<lparr>trace := trace w1 @ [ExitWait]\<rparr>)"
  using assms by (simp add: run_subprocess_def popen_exit_Inl popen_exit_Inr)

lemma io_not_wait: "list_all is_io tr \<Longrightarrow> Wait t \<notin> set tr"
  by (induction tr) auto

lemma wait_not_cleanup: "Wait None \<notin> set (cleanup_actions c)"
  by (simp add: cleanup_actions_def)

lemma wait_not_exit: "Wait None \<notin> set (exit_actions c x)"
  by (simp add: exit_actions_def)

lemmas run_simps = run_subprocess_def try_body_def init_locals_def init_world_def child_of_def
  handle_fd_def os_read_def list_remove_def LineLogger_log_def LineLogger_flush_def
  LineLogger_init_def list_pop_def newline_def safe_decode_def in_range_def is_continuation_def
  prepend_def cleanup_def popen_exit_def Let_def bytes_read_def

section \<open>Two runs of a child that writes one line\<close>

lemma hello_0_fst:
  "fst (run_subprocess [''echo'', ''hello''] True True (hello_child 0)) =
     Some (Inr \<lparr>args = [''echo'', ''hello''], returncode = 0,
                 stdout = Some [0x68, 0x65, 0x6C, 0x6C, 0x6F, 0x0A], stderr = Some []\<rparr>)"
  by (simp add: run_simps hello_child_def)

lemma hello_0_trace:
  "trace (snd (run_subprocess [''echo'', ''hello''] True True (hello_child 0))) =
     [Select (Inr [Stdout, Stderr]), Read Stdout 8192 (Inr [0x68, 0x65, 0x6C, 0x6C, 0x6F, 0x0A]),
      Read Stderr 8192 (Inr []), Select (Inr [Stdout]), Read Stdout 8192 (Inr []), Wait None,
      ExitWait]"
  by (simp add: run_simps hello_child_def)

lemma hello_2_fst:
  "fst (run_subprocess [''echo'', ''hello''] True True (hello_child 2)) =
     Some (Inl (CalledProcessError 2 [''echo'', ''hello'']
                  (Some [0x68, 0x65, 0x6C, 0x6C, 0x6F, 0x0A]) (Some [])))"
  by (simp add: run_simps hello_child_def)

lemma hello_2_trace:
  "trace (snd (run_subprocess [''echo'', ''hello''] True True (hello_child 2))) =
     [Select (Inr [Stdout, Stderr]), Read Stdout 8192 (Inr [0x68, 0x65, 0x6C, 0x6C, 0x6F, 0x0A]),
      Read Stderr 8192 (Inr []), Select (Inr [Stdout]), Read Stdout 8192 (Inr []), Wait None,
      ExitWait]"
  by (simp add: run_simps hello_child_def)

section \<open>Decoding never raises\<close>

lemma cleanup_raises_library:
  "is_library_error e \<Longrightarrow> is_library_error (cleanup_raises c e)"
  by (simp add: cleanup_raises_def split: option.splits sum.splits)

lemma run_outcome:
  "fst (run_subprocess args' live pipe c) = Some (Inl e)
     \<Longrightarrow> (case e of LibraryError f \<Rightarrow> True
                    | CalledProcessError rc a out err \<Rightarrow> rc \<noteq> 0 \<and> a = args'
                    | _ \<Rightarrow> False)"
proof (cases "popen_result c")
  case (Some f)
  assume "fst (run_subprocess args' live pipe c) = Some (Inl e)"
  with Some show ?thesis by (auto simp: run_subprocess_def)
next
  case None
  assume a: "fst (run_subprocess args' live pipe c) = Some (Inl e)"
  obtain r w1 where t: "try_body live pipe c (init_world c) = (r, w1)"
    by (cases "try_body live pipe c (init_world c)")
  have lib: "is_library_error x \<Longrightarrow> after_exit c x = Some (Inl e) \<Longrightarrow> is_library_error e" for x
    by (auto simp: after_exit_def split: if_splits option.splits sum.splits)
  have le: "is_library_error e \<Longrightarrow> ?thesis"
    by (cases e) simp_all
  show ?thesis
  proof (cases r)
    case n: None
    with None t a show ?thesis by (simp add: run_subprocess_blocked)
  next
    case (Some x)
    show ?thesis
    proof (cases x)
      case (Inl e0)
      from t Some Inl have "is_library_error e0"
        by (cases rule: try_body_cases) (auto split: option.splits sum.splits)
      with None t a Some Inl lib[of e0] lib[of "cleanup_raises c e0"]
        cleanup_raises_library[of e0 c] le
      show ?thesis
        by (auto simp: run_subprocess_raised split: if_splits)
    next
      case (Inr y)
      obtain rc out err where "y = (rc, out, err)" by (cases y)
      with None t a Some Inr show ?thesis
        by (auto simp: run_subprocess_waited split: if_splits)
    qed
  qed
qed

text \<open>
  C6. For every byte string \<open>_safe_decode\<close> returns a string and raises nothing: the
  strict UTF-8 decoding when there is one, and otherwise the ASCII decoding in which
  every byte from 128 on is replaced by its escape \<open>\xNN\<close>. No run of \<open>run_subprocess\<close>
  raises \<open>UnicodeDecodeError\<close>. In particular, when the child writes \<open>\xff\n\<close> and live
  logging is on, the line reaches the logger as \<open>\xff\<close> spelled out in four characters,
  and the captured output is still the two raw bytes.
\<close>

theorem safe_decode_never_raises:
  "(\<exists>s. safe_decode bs = Inr s)
   \<and> (\<forall>s. utf_8_decode bs = Inr s \<longrightarrow> safe_decode bs = Inr s)
   \<and> (\<forall>e. utf_8_decode bs = Inl e \<longrightarrow> safe_decode bs = ascii_decode Backslashreplace bs
                                     \<and> safe_decode bs = Inr (replaced bs))
   \<and> fst (run_subprocess args' live pipe c) \<noteq> Some (Inl UnicodeDecodeError)
   \<and> fst (run_subprocess args' True True malformed_child) =
        Some (Inr \<lparr>args = args', returncode = 0, stdout = Some [0xFF, 0x0A], stderr = Some []\<rparr>)
   \<and> log (snd (run_subprocess args' True True malformed_child)) = [(DEBUG, [92, 120, 102, 102])]"
proof -
  have "fst (run_subprocess args' live pipe c) \<noteq> Some (Inl UnicodeDecodeError)"
    using run_outcome[of args' live pipe c UnicodeDecodeError] by auto
  moreover have "safe_decode bs = ascii_decode Backslashreplace bs" if "utf_8_decode bs = Inl e" for e
    using that utf_8_decode_raises[OF that] by (simp add: safe_decode_def)
  moreover have "fst (run_subprocess args' True True malformed_child) =
        Some (Inr \<lparr>args = args', returncode = 0, stdout = Some [0xFF, 0x0A], stderr = Some []\<rparr>)"
    by (simp add: run_simps malformed_child_def backslash_escape_def hex_digit_def)
  moreover have "log (snd (run_subprocess args' True True malformed_child)) =
        [(DEBUG, [92, 120, 102, 102])]"
    by (simp add: run_simps malformed_child_def backslash_escape_def hex_digit_def)
  ultimately show ?thesis
    by (auto simp: safe_decode_decoded decoded_def ascii_decode_replace)
qed

theorem safe_decode_never_raises_witness:
  "safe_decode [0xFF] = Inr [92, 120, 102, 102] \<and> safe_decode [0x61] = Inr [0x61]"
proof -
  have u1: "utf_8_decode [0xFF] = Inl UnicodeDecodeError"
    by (simp add: in_range_def)
  have u2: "utf_8_decode [0x61] = Inr [0x61]"
    by (simp add: prepend_def)
  have r: "replaced [0xFF] = [92, 120, 102, 102]"
    by (simp add: replaced_def backslash_escape_def hex_digit_def)
  have "utf_8_decode [0xFF] = Inl UnicodeDecodeError \<longrightarrow> safe_decode [0xFF] = Inr (replaced [0xFF])"
    using safe_decode_never_raises[of "[0xFF]" "[''cmd'']" True True malformed_child] by blast
  with u1 have "safe_decode [0xFF] = Inr (replaced [0xFF])" by blast
  with r have a: "safe_decode [0xFF] = Inr [92, 120, 102, 102]" by simp
  have "utf_8_decode [0x61] = Inr [0x61] \<longrightarrow> safe_decode [0x61] = Inr [0x61]"
    using safe_decode_never_raises[of "[0x61]" "[''cmd'']" True True malformed_child] by blast
  with u2 have b: "safe_decode [0x61] = Inr [0x61]" by blast
  from a b show ?thesis by simp
qed

section \<open>Line splitting\<close>

lemma log_chunks_init:
  "log_chunks (LineLogger_init lv) cs [] =
     (None, \<lparr>buffer = last (bytes_split (concat cs) newline), logger = lv\<rparr>,
      map (\<lambda>l. (lv, decoded l)) (butlast (bytes_split (concat cs) newline)))"
  using log_chunks_eq[of "LineLogger_init lv" cs "[]"] by (simp add: LineLogger_init_def)

text \<open>
  C3. Feed a fresh line buffer any sequence of chunks. No call raises. The lines
  written during the \<open>log\<close> calls are the decoded segments of the bytes fed that a
  newline ends, one line for each newline seen and no more. The \<open>flush\<close> that follows
  adds the remaining bytes as one more line when there are any, and nothing
  otherwise. So the bytes \<open>a\nb\nc\<close>, whatever the chunks, give \<open>a\<close> and \<open>b\<close> during the
  \<open>log\<close> calls and \<open>a\<close>, \<open>b\<close>, \<open>c\<close> after the flush, with no empty line at the end; and the
  bytes \<open>a\nbc\<close> give \<open>a\<close> during the \<open>log\<close> calls and \<open>bc\<close> only at the flush.
\<close>

theorem line_splitting:
  "fst (log_chunks (LineLogger_init lv) cs []) = None
   \<and> lines_during lv cs = map (\<lambda>l. (lv, decoded l)) (butlast (bytes_split (concat cs) newline))
   \<and> length (lines_during lv cs) = count_list (concat cs) newline
   \<and> lines_after_flush lv cs =
       lines_during lv cs @
         (if last (bytes_split (concat cs) newline) = [] then []
          else [(lv, decoded (last (bytes_split (concat cs) newline)))])
   \<and> (concat cs = [0x61, 0x0A, 0x62, 0x0A, 0x63] \<longrightarrow>
        lines_during lv cs = [(lv, [0x61]), (lv, [0x62])] \<and>
        lines_after_flush lv cs = [(lv, [0x61]), (lv, [0x62]), (lv, [0x63])])
   \<and> (concat cs = [0x61, 0x0A, 0x62, 0x63] \<longrightarrow>
        lines_during lv cs = [(lv, [0x61])] \<and>
        lines_after_flush lv cs = [(lv, [0x61]), (lv, [0x62, 0x63])])"
proof -
  have d: "lines_during lv cs = map (\<lambda>l. (lv, decoded l)) (butlast (bytes_split (concat cs) newline))"
    by (simp add: lines_during_def log_chunks_init)
  have f: "lines_after_flush lv cs =
       lines_during lv cs @
         (if last (bytes_split (concat cs) newline) = [] then []
          else [(lv, decoded (last (bytes_split (concat cs) newline)))])"
    by (simp add: lines_after_flush_def d log_chunks_init LineLogger_flush_eq)
  have n: "length (lines_during lv cs) = count_list (concat cs) newline"
    by (simp add: d length_bytes_split)
  have da: "decoded [0x61] = [0x61]" and db: "decoded [0x62] = [0x62]"
    and dc: "decoded [0x63] = [0x63]" and dbc: "decoded [0x62, 0x63] = [0x62, 0x63]"
    by (simp_all add: decoded_def prepend_def)
  have e1: "lines_during lv cs = [(lv, [0x61]), (lv, [0x62])] \<and>
        lines_after_flush lv cs = [(lv, [0x61]), (lv, [0x62]), (lv, [0x63])]"
    if "concat cs = [0x61, 0x0A, 0x62, 0x0A, 0x63]"
    using that by (simp add: f d newline_def da db dc)
  have e2: "lines_during lv cs = [(lv, [0x61])] \<and>
        lines_after_flush lv cs = [(lv, [0x61]), (lv, [0x62, 0x63])]"
    if "concat cs = [0x61, 0x0A, 0x62, 0x63]"
    using that by (simp add: f d newline_def da dbc)
  have z: "fst (log_chunks (LineLogger_init lv) cs []) = None"
    by (simp add: log_chunks_init)
  show ?thesis
    using z d f n e1 e2 by blast
qed

theorem line_splitting_witness:
  "lines_during DEBUG [[0x61, 0x0A, 0x62], [0x0A], [0x63]] = [(DEBUG, [0x61]), (DEBUG, [0x62])]
   \<and> lines_after_flush DEBUG [[0x61, 0x0A, 0x62], [0x0A], [0x63]] =
        [(DEBUG, [0x61]), (DEBUG, [0x62]), (DEBUG, [0x63])]
   \<and> lines_during WARNING [[0x61], [0x0A, 0x62], [0x63]] = [(WARNING, [0x61])]
   \<and> lines_after_flush WARNING [[0x61], [0x0A, 0x62], [0x63]] =
        [(WARNING, [0x61]), (WARNING, [0x62, 0x63])]"
proof -
  have a: "concat [[0x61, 0x0A, 0x62], [0x0A], [0x63]] = [0x61, 0x0A, 0x62, 0x0A, 0x63 :: byte]"
    by simp
  have b: "concat [[0x61], [0x0A, 0x62], [0x63]] = [0x61, 0x0A, 0x62, 0x63 :: byte]"
    by simp
  show ?thesis
    using line_splitting[of DEBUG "[[0x61, 0x0A, 0x62], [0x0A], [0x63]]"]
      line_splitting[of WARNING "[[0x61], [0x0A, 0x62], [0x63]]"] a b
    by blast
qed

section \<open>The residue of the line buffer\<close>

text \<open>
  C9. After every \<open>log\<close> call, from any state of the object, the buffer that is kept
  holds no newline: the call has written one line for every segment of the old buffer
  followed by the new data that a newline ends, none of them containing a newline, and
  these segments with their newlines, followed by the new buffer, are the old buffer
  followed by the data. After every \<open>flush\<close> the buffer is empty, so a second \<open>flush\<close>
  writes nothing and changes nothing. Neither call raises.
\<close>

theorem residue_has_no_newline:
  "fst (LineLogger_log self data lg) = None
   \<and> newline \<notin> set (buffer (fst (snd (LineLogger_log self data lg))))
   \<and> snd (snd (LineLogger_log self data lg)) =
       lg @ map (\<lambda>l. (logger self, decoded l)) (butlast (bytes_split (buffer self @ data) newline))
   \<and> (\<forall>l \<in> set (butlast (bytes_split (buffer self @ data) newline)). newline \<notin> set l)
   \<and> concat (map (\<lambda>l. l @ [newline]) (butlast (bytes_split (buffer self @ data) newline)))
         @ buffer (fst (snd (LineLogger_log self data lg))) = buffer self @ data
   \<and> fst (LineLogger_flush self lg) = None
   \<and> buffer (fst (snd (LineLogger_flush self lg))) = []
   \<and> LineLogger_flush (fst (snd (LineLogger_flush self lg))) lg' =
       (None, fst (snd (LineLogger_flush self lg)), lg')"
proof -
  let ?ls = "bytes_split (buffer self @ data) newline"
  have ne: "?ls \<noteq> []" by (rule bytes_split_nonempty)
  then have "last ?ls \<in> set ?ls" by simp
  then have a: "newline \<notin> set (last ?ls)" by (rule bytes_split_no_sep)
  have b: "newline \<notin> set l" if "l \<in> set (butlast ?ls)" for l
    using that bytes_split_no_sep[of l "buffer self @ data" newline] by (auto dest: in_set_butlastD)
  have c: "concat (map (\<lambda>l. l @ [newline]) (butlast ?ls)) @ last ?ls = buffer self @ data"
    by (rule bytes_split_join)
  show ?thesis
    using a b c by (simp add: LineLogger_log_eq LineLogger_flush_eq)
qed

theorem residue_has_no_newline_witness:
  "newline \<notin> set (buffer (fst (snd (LineLogger_log \<lparr>buffer = [0x61], logger = DEBUG\<rparr> [0x62, 0x0A, 0x63] []))))
   \<and> snd (snd (LineLogger_log \<lparr>buffer = [0x61], logger = DEBUG\<rparr> [0x62, 0x0A, 0x63] [])) =
        [(DEBUG, [0x61, 0x62])]
   \<and> buffer (fst (snd (LineLogger_flush \<lparr>buffer = [0x63], logger = DEBUG\<rparr> []))) = []"
proof -
  have d: "decoded [0x61, 0x62] = [0x61, 0x62]" by (simp add: decoded_def prepend_def)
  show ?thesis
    using residue_has_no_newline[of "\<lparr>buffer = [0x61], logger = DEBUG\<rparr>" "[0x62, 0x0A, 0x63]" "[]"]
      residue_has_no_newline[of "\<lparr>buffer = [0x63], logger = DEBUG\<rparr>" _ "[]"] d
    by (simp add: newline_def)
qed

section \<open>Without capture\<close>

lemma cleanup_not_io: "list_all (\<lambda>a. \<not> is_io a) (cleanup_actions c)"
  by (simp add: cleanup_actions_def)

lemma exit_not_io: "list_all (\<lambda>a. \<not> is_io a) (exit_actions c x)"
  by (simp add: exit_actions_def)

text \<open>
  C10. With \<open>pipe_output=False\<close> and whatever \<open>log_output_live\<close> is: no \<open>select\<close> and no
  read is made, nothing is logged, and when \<open>wait()\<close> gives the exit code \<open>rc\<close> it is
  the only library call of the function, followed only by the \<open>wait()\<close> of
  \<open>Popen.__exit__\<close>; the call then returns a \<open>CompletedProcess\<close> whose \<open>stdout\<close> and
  \<open>stderr\<close> are \<open>None\<close> when \<open>rc\<close> is zero, and raises \<open>CalledProcessError\<close> with \<open>rc\<close>, the
  arguments and \<open>None\<close> for both buffers otherwise.
\<close>

theorem no_capture:
  assumes "popen_result c = None"
  shows "log (snd (run_subprocess args' live False c)) = []
         \<and> reads (snd (run_subprocess args' live False c)) = read_results c
         \<and> list_all (\<lambda>a. \<not> is_io a) (trace (snd (run_subprocess args' live False c)))
         \<and> (wait_result c = Some (Inr rc) \<longrightarrow>
              trace (snd (run_subprocess args' live False c)) = [Wait None, ExitWait] \<and>
              fst (run_subprocess args' live False c) =
                Some (if rc \<noteq> 0 then Inl (CalledProcessError rc args' None None)
                      else Inr \<lparr>args = args', returncode = 0, stdout = None, stderr = None\<rparr>))"
proof -
  obtain r w1 where t: "try_body live False c (init_world c) = (r, w1)"
    by (cases "try_body live False c (init_world c)")
  from t show ?thesis
  proof (cases rule: try_body_cases)
    case blocked
    then show ?thesis by simp
  next
    case (raised f)
    then show ?thesis by simp
  next
    case (waited pre)
    then have w1: "trace w1 = [Wait None]" "log w1 = []" "reads w1 = read_results c"
      by simp_all
    show ?thesis
    proof (cases "wait_result c")
      case None
      with waited(5) t assms w1 show ?thesis
        by (simp add: run_subprocess_blocked)
    next
      case (Some x)
      show ?thesis
      proof (cases x)
        case (Inl f)
        with Some waited(5) t have "try_body live False c (init_world c) =
            (Some (Inl (LibraryError f)), w1)" by simp
        from run_subprocess_raised[OF assms this, of args'] Some Inl w1 show ?thesis
          by (simp add: cleanup_not_io exit_not_io)
      next
        case (Inr rc')
        with Some waited(5) t have "try_body live False c (init_world c) =
            (Some (Inr (rc', None, None)), w1)" by simp
        from run_subprocess_waited[OF assms this, of args'] Some Inr w1 show ?thesis
          by simp
      qed
    qed
  qed
qed

theorem no_capture_witness:
  "fst (run_subprocess [''true''] True False (hello_child 0)) =
     Some (Inr \<lparr>args = [''true''], returncode = 0, stdout = None, stderr = None\<rparr>)
   \<and> fst (run_subprocess [''false''] True False (hello_child 1)) =
     Some (Inl (CalledProcessError 1 [''false''] None None))
   \<and> trace (snd (run_subprocess [''true''] True False (hello_child 0))) = [Wait None, ExitWait]
   \<and> log (snd (run_subprocess [''true''] True False (hello_child 0))) = []"
proof -
  have p: "popen_result (hello_child rc) = None" and w: "wait_result (hello_child rc) = Some (Inr rc)" for rc
    by (simp_all add: hello_child_def child_of_def)
  show ?thesis
    using no_capture[OF p, of "[''true'']" True 0 0] no_capture[OF p, of "[''false'']" True 1 1] w
    by simp
qed

section \<open>The exception handler\<close>

text \<open>
  C4, as the claim states it, fails in two ways. First, the first read raises \<open>OSError\<close>
  5 and \<open>terminate()\<close> raises \<open>OSError\<close> 1 (the child runs under another user). Then the
  handler is left at once: there is no bounded wait and no kill, only the \<open>wait()\<close> of
  \<open>Popen.__exit__\<close>, and the caller gets the exception of \<open>terminate()\<close>, not the one of
  the read. Second, the user interrupts the first \<open>select\<close>: \<open>KeyboardInterrupt\<close> is not
  an \<open>Exception\<close>, so the handler is not entered, the child is neither terminated nor
  killed, and \<open>Popen.__exit__\<close> waits for it with no bound.
\<close>

theorem cleanup_escalation_counterexample:
  "fst (try_body False True (failing_read_child\<lparr>terminate_result := Some (OSError 1)\<rparr>)
          (init_world (failing_read_child\<lparr>terminate_result := Some (OSError 1)\<rparr>))) =
     Some (Inl (LibraryError (OSError 5)))
   \<and> fst (run_subprocess [''cmd''] False True
             (failing_read_child\<lparr>terminate_result := Some (OSError 1)\<rparr>)) =
     Some (Inl (LibraryError (OSError 1)))
   \<and> trace (snd (run_subprocess [''cmd''] False True
             (failing_read_child\<lparr>terminate_result := Some (OSError 1)\<rparr>))) =
     [Select (Inr [Stdout, Stderr]), Read Stdout 8192 (Inl (OSError 5)), Terminate, ExitWait]
   \<and> fst (try_body False True interrupted_child (init_world interrupted_child)) =
     Some (Inl (LibraryError KeyboardInterrupt))
   \<and> fst (run_subprocess [''cmd''] False True interrupted_child) =
     Some (Inl (LibraryError KeyboardInterrupt))
   \<and> trace (snd (run_subprocess [''cmd''] False True interrupted_child)) =
     [Select (Inl KeyboardInterrupt), ExitWait]"
  by (simp add: run_simps failing_read_child_def interrupted_child_def)

text \<open>
  C4, amended. Let a step of draining or waiting raise \<open>e\<close>. When \<open>e\<close> is an \<open>Exception\<close>, the
  calls that follow are \<open>terminate()\<close>, then, if it returns, \<open>wait(1)\<close>, then \<open>kill()\<close>
  exactly when that wait raises \<open>TimeoutExpired\<close>, and then what \<open>Popen.__exit__\<close> does
  with the exception that leaves the handler: a \<open>wait()\<close> with no timeout (none for a
  \<open>KeyboardInterrupt\<close> under Python 3.7 or later). The exception raised to the caller is
  \<open>e\<close> when \<open>terminate()\<close> returns and either \<open>wait(1)\<close> returns, or it times out, \<open>kill()\<close>
  returns and the \<open>wait()\<close> of \<open>Popen.__exit__\<close> returns. When \<open>e\<close> is not an \<open>Exception\<close>
  (a \<open>KeyboardInterrupt\<close> or a \<open>SystemExit\<close>), none of \<open>terminate()\<close>, \<open>wait(1)\<close> and
  \<open>kill()\<close> is called: only \<open>Popen.__exit__\<close> runs, and the caller gets \<open>e\<close> if its
  \<open>wait()\<close> returns or is not made.
\<close>

theorem cleanup_escalation:
  assumes "popen_result c = None"
    and "try_body live pipe c (init_world c) = (Some (Inl e), w1)"
  shows "(is_Exception e \<longrightarrow>
            trace (snd (run_subprocess args' live pipe c)) =
              trace w1 @ Terminate #
                (if terminate_result c = None
                 then Wait (Some 1) #
                        (if wait_timeout_result c = Inl TimeoutExpired then [Kill] else [])
                 else []) @ exit_actions c (cleanup_raises c e))
         \<and> (is_Exception e \<and> terminate_result c = None \<and>
              ((\<exists>rc. wait_timeout_result c = Inr rc) \<or>
               (wait_timeout_result c = Inl TimeoutExpired \<and> kill_result c = None \<and>
                (\<exists>rc. exit_wait_result c = Some (Inr rc))))
            \<longrightarrow> fst (run_subprocess args' live pipe c) = Some (Inl e))
         \<and> (\<not> is_Exception e \<longrightarrow>
              trace (snd (run_subprocess args' live pipe c)) = trace w1 @ exit_actions c e \<and>
              fst (run_subprocess args' live pipe c) = after_exit c e \<and>
              ((exit_skips_wait c \<and> e = LibraryError KeyboardInterrupt) \<or>
               (\<exists>rc. exit_wait_result c = Some (Inr rc))
                 \<longrightarrow> fst (run_subprocess args' live pipe c) = Some (Inl e)))"
proof -
  note r = run_subprocess_raised[OF assms, of args']
  have a: "trace (snd (run_subprocess args' live pipe c)) =
        trace w1 @ Terminate #
          (if terminate_result c = None
           then Wait (Some 1) #
                  (if wait_timeout_result c = Inl TimeoutExpired then [Kill] else [])
           else []) @ exit_actions c (cleanup_raises c e)" if "is_Exception e"
    using r that by (simp add: cleanup_actions_def)
  have b: "fst (run_subprocess args' live pipe c) = Some (Inl e)"
    if "is_Exception e" "terminate_result c = None" "wait_timeout_result c = Inr rc" for rc
    using r that by (simp add: cleanup_reaps_def)
  have c: "fst (run_subprocess args' live pipe c) = Some (Inl e)"
    if "is_Exception e" "terminate_result c = None" "wait_timeout_result c = Inl TimeoutExpired"
      "kill_result c = None" "exit_wait_result c = Some (Inr rc)" for rc
    using r that by (simp add: cleanup_reaps_def cleanup_raises_def after_exit_def)
  have d: "trace (snd (run_subprocess args' live pipe c)) = trace w1 @ exit_actions c e"
    "fst (run_subprocess args' live pipe c) = after_exit c e" if "\<not> is_Exception e"
    using r that by simp_all
  have f: "after_exit c e = Some (Inl e)"
    if "(exit_skips_wait c \<and> e = LibraryError KeyboardInterrupt) \<or>
        (\<exists>rc. exit_wait_result c = Some (Inr rc))"
    using that by (auto simp: after_exit_def)
  from a b c d f show ?thesis by auto
qed

theorem cleanup_escalation_witness:
  "trace (snd (run_subprocess [''cmd''] False True failing_read_child)) =
     [Select (Inr [Stdout, Stderr]), Read Stdout 8192 (Inl (OSError 5)),
      Terminate, Wait (Some 1), Kill, ExitWait]
   \<and> fst (run_subprocess [''cmd''] False True failing_read_child) =
     Some (Inl (LibraryError (OSError 5)))
   \<and> trace (snd (run_subprocess [''cmd''] False True interrupted_child)) =
     [Select (Inl KeyboardInterrupt), ExitWait]
   \<and> fst (run_subprocess [''cmd''] False True interrupted_child) =
     Some (Inl (LibraryError KeyboardInterrupt))"
proof -
  have p: "popen_result failing_read_child = None"
    and t: "terminate_result failing_read_child = None"
    and w: "wait_timeout_result failing_read_child = Inl TimeoutExpired"
    and k: "kill_result failing_read_child = None"
    and x: "exit_wait_result failing_read_child = Some (Inr 0)"
    and s: "\<not> exit_skips_wait failing_read_child"
    by (simp_all add: failing_read_child_def child_of_def)
  have b: "try_body False True failing_read_child (init_world failing_read_child) =
      (Some (Inl (LibraryError (OSError 5))),
       snd (try_body False True failing_read_child (init_world failing_read_child)))"
    by (simp add: run_simps failing_read_child_def)
  have tr: "trace (snd (try_body False True failing_read_child (init_world failing_read_child))) =
      [Select (Inr [Stdout, Stderr]), Read Stdout 8192 (Inl (OSError 5))]"
    by (simp add: run_simps failing_read_child_def)
  have cr: "cleanup_raises failing_read_child (LibraryError (OSError 5)) = LibraryError (OSError 5)"
    using t w k by (simp add: cleanup_raises_def)
  have p': "popen_result interrupted_child = None"
    and x': "exit_wait_result interrupted_child = Some (Inr (- 2))"
    and s': "\<not> exit_skips_wait interrupted_child"
    by (simp_all add: interrupted_child_def child_of_def)
  have b': "try_body False True interrupted_child (init_world interrupted_child) =
      (Some (Inl (LibraryError KeyboardInterrupt)),
       snd (try_body False True interrupted_child (init_world interrupted_child)))"
    by (simp add: run_simps interrupted_child_def)
  have tr': "trace (snd (try_body False True interrupted_child (init_world interrupted_child))) =
      [Select (Inl KeyboardInterrupt)]"
    by (simp add: run_simps interrupted_child_def)
  have "trace (snd (run_subprocess [''cmd''] False True failing_read_child)) =
     [Select (Inr [Stdout, Stderr]), Read Stdout 8192 (Inl (OSError 5)),
      Terminate, Wait (Some 1), Kill, ExitWait]
   \<and> fst (run_subprocess [''cmd''] False True failing_read_child) =
     Some (Inl (LibraryError (OSError 5)))"
    using cleanup_escalation[OF p b, of "[''cmd'']"] t w k x s tr cr
    by (simp add: exit_actions_def)
  moreover have "trace (snd (run_subprocess [''cmd''] False True interrupted_child)) =
     [Select (Inl KeyboardInterrupt), ExitWait]
   \<and> fst (run_subprocess [''cmd''] False True interrupted_child) =
     Some (Inl (LibraryError KeyboardInterrupt))"
    using cleanup_escalation[OF p' b', of "[''cmd'']"] x' s' tr'
    by (simp add: exit_actions_def after_exit_def)
  ultimately show ?thesis by simp
qed

text \<open>
  C5, as the claim states it, fails: the first read raises \<open>OSError\<close> 5, the bounded wait
  times out and \<open>kill()\<close> raises \<open>OSError\<close> 1 (the child runs under another user by
  then). The caller gets the exception of \<open>kill()\<close>, and nothing has been logged.
\<close>

theorem cleanup_error_counterexample:
  "fst (try_body True True (failing_read_child\<lparr>kill_result := Some (OSError 1)\<rparr>)
          (init_world (failing_read_child\<lparr>kill_result := Some (OSError 1)\<rparr>))) =
     Some (Inl (LibraryError (OSError 5)))
   \<and> fst (run_subprocess [''cmd''] True True (failing_read_child\<lparr>kill_result := Some (OSError 1)\<rparr>)) =
     Some (Inl (LibraryError (OSError 1)))
   \<and> log (snd (run_subprocess [''cmd''] True True
             (failing_read_child\<lparr>kill_result := Some (OSError 1)\<rparr>))) = []
   \<and> trace (snd (run_subprocess [''cmd''] True True
             (failing_read_child\<lparr>kill_result := Some (OSError 1)\<rparr>))) =
     [Select (Inr [Stdout, Stderr]), Read Stdout 8192 (Inl (OSError 5)),
      Terminate, Wait (Some 1), Kill, ExitWait]"
  by (simp add: run_simps failing_read_child_def)

text \<open>
  C5, amended. Let a step of draining or waiting raise \<open>e\<close>. Nothing is logged after
  that. When \<open>e\<close> is an \<open>Exception\<close>, the handler runs, and the only exception of a cleanup
  step that it handles is the \<open>TimeoutExpired\<close> of \<open>wait(1)\<close>, after which it calls
  \<open>kill()\<close>: the exception that leaves the handler is \<open>e\<close> when no cleanup step raises
  anything else, and otherwise the exception of \<open>terminate()\<close>, any other exception of
  \<open>wait(1)\<close>, or the one of \<open>kill()\<close>, in place of \<open>e\<close>. When \<open>wait(1)\<close> has returned the
  caller gets \<open>e\<close>. Otherwise \<open>Popen.__exit__\<close> waits for the child with no bound (except
  for a \<open>KeyboardInterrupt\<close> under Python 3.7 or later): the caller gets the exception
  that left the handler when that wait returns, the exception of that wait when it
  raises, and nothing at all, the call never returning, when the child never exits.
  When \<open>e\<close> is not an \<open>Exception\<close> the handler does not run, and \<open>Popen.__exit__\<close> does the
  same with \<open>e\<close>.
\<close>

theorem cleanup_errors:
  assumes "popen_result c = None"
    and "try_body live pipe c (init_world c) = (Some (Inl e), w1)"
  shows "log (snd (run_subprocess args' live pipe c)) = log w1
         \<and> (is_Exception e \<longrightarrow>
              fst (run_subprocess args' live pipe c) =
                (if terminate_result c = None \<and> (\<exists>rc. wait_timeout_result c = Inr rc)
                 then Some (Inl e)
                 else after_exit c
                        (case terminate_result c of
                           Some f \<Rightarrow> LibraryError f
                         | None \<Rightarrow>
                             (case wait_timeout_result c of
                                Inr rc \<Rightarrow> e
                              | Inl f \<Rightarrow>
                                  if f = TimeoutExpired
                                  then (case kill_result c of
                                          Some k \<Rightarrow> LibraryError k
                                        | None \<Rightarrow> e)
                                  else LibraryError f))))
         \<and> (\<not> is_Exception e \<longrightarrow> fst (run_subprocess args' live pipe c) = after_exit c e)"
proof -
  note r = run_subprocess_raised[OF assms, of args']
  have reaps: "cleanup_reaps c = (terminate_result c = None \<and> (\<exists>rc. wait_timeout_result c = Inr rc))"
    by (auto simp: cleanup_reaps_def split: option.splits sum.splits)
  have "log (snd (run_subprocess args' live pipe c)) = log w1"
    using r by (simp split: if_splits)
  moreover have "fst (run_subprocess args' live pipe c) =
      (if terminate_result c = None \<and> (\<exists>rc. wait_timeout_result c = Inr rc)
       then Some (Inl e) else after_exit c (cleanup_raises c e))" if "is_Exception e"
    using r that reaps by simp
  moreover have "fst (run_subprocess args' live pipe c) = after_exit c e" if "\<not> is_Exception e"
    using r that by simp
  ultimately show ?thesis
    unfolding cleanup_raises_def by blast
qed

theorem cleanup_errors_witness:
  "fst (run_subprocess [''cmd''] True True failing_read_child) = Some (Inl (LibraryError (OSError 5)))
   \<and> log (snd (run_subprocess [''cmd''] True True failing_read_child)) = []
   \<and> fst (run_subprocess [''cmd''] True True (failing_read_child\<lparr>exit_wait_result := None\<rparr>)) = None
   \<and> fst (run_subprocess [''cmd''] True True interrupted_child) =
       Some (Inl (LibraryError KeyboardInterrupt))"
proof -
  have p: "popen_result failing_read_child = None"
    and t: "terminate_result failing_read_child = None"
    and w: "wait_timeout_result failing_read_child = Inl TimeoutExpired"
    and k: "kill_result failing_read_child = None"
    and x: "exit_wait_result failing_read_child = Some (Inr 0)"
    by (simp_all add: failing_read_child_def child_of_def)
  have b: "try_body True True failing_read_child (init_world failing_read_child) =
      (Some (Inl (LibraryError (OSError 5))),
       snd (try_body True True failing_read_child (init_world failing_read_child)))"
    by (simp add: run_simps failing_read_child_def)
  have lg: "log (snd (try_body True True failing_read_child (init_world failing_read_child))) = []"
    by (simp add: run_simps failing_read_child_def)
  let ?n = "failing_read_child\<lparr>exit_wait_result := None\<rparr>"
  have pn: "popen_result ?n = None"
    and tn: "terminate_result ?n = None"
    and wn: "wait_timeout_result ?n = Inl TimeoutExpired"
    and kn: "kill_result ?n = None"
    and xn: "exit_wait_result ?n = None"
    by (simp_all add: failing_read_child_def child_of_def)
  have bn: "try_body True True ?n (init_world ?n) =
      (Some (Inl (LibraryError (OSError 5))), snd (try_body True True ?n (init_world ?n)))"
    by (simp add: run_simps failing_read_child_def)
  have p': "popen_result interrupted_child = None"
    and x': "exit_wait_result interrupted_child = Some (Inr (- 2))"
    and s': "\<not> exit_skips_wait interrupted_child"
    by (simp_all add: interrupted_child_def child_of_def)
  have b': "try_body True True interrupted_child (init_world interrupted_child) =
      (Some (Inl (LibraryError KeyboardInterrupt)),
       snd (try_body True True interrupted_child (init_world interrupted_child)))"
    by (simp add: run_simps interrupted_child_def)
  have "fst (run_subprocess [''cmd''] True True failing_read_child) = Some (Inl (LibraryError (OSError 5)))
   \<and> log (snd (run_subprocess [''cmd''] True True failing_read_child)) = []"
    using cleanup_errors[OF p b, of "[''cmd'']"] t w k x lg by (simp add: after_exit_def)
  moreover have "fst (run_subprocess [''cmd''] True True ?n) = None"
    using cleanup_errors[OF pn bn, of "[''cmd'']"] tn wn kn xn by (simp add: after_exit_def)
  moreover have "fst (run_subprocess [''cmd''] True True interrupted_child) =
       Some (Inl (LibraryError KeyboardInterrupt))"
    using cleanup_errors[OF p' b', of "[''cmd'']"] x' s' by (simp add: after_exit_def)
  ultimately show ?thesis by simp
qed

section \<open>When the exit code is read\<close>

lemma io_count: "list_all is_io tr \<Longrightarrow> count_list tr (Wait None) = 0"
  by (induction tr) auto

lemma io_count_exit: "list_all is_io tr \<Longrightarrow> count_list tr ExitWait = 0"
  by (induction tr) auto

lemma io_not_exit: "list_all is_io tr \<Longrightarrow> ExitWait \<notin> set tr"
  by (induction tr) auto

lemma cleanup_count: "count_list (cleanup_actions c) (Wait None) = 0"
  by (simp add: cleanup_actions_def)

lemma cleanup_count_exit: "count_list (cleanup_actions c) ExitWait = 0"
  by (simp add: cleanup_actions_def)

lemma exit_not_cleanup: "ExitWait \<notin> set (cleanup_actions c)"
  by (simp add: cleanup_actions_def)

lemma exit_count: "count_list (exit_actions c x) (Wait None) = 0"
  by (simp add: exit_actions_def)

lemma exit_actions_cases: "exit_actions c x = [] \<or> exit_actions c x = [ExitWait]"
  by (simp add: exit_actions_def)

lemma after_exit_library:
  "is_library_error x \<Longrightarrow> after_exit c x = Some (Inl y) \<Longrightarrow> is_library_error y"
  by (auto simp: after_exit_def split: if_splits option.splits sum.splits)

lemma after_exit_not_completed: "is_library_error x \<Longrightarrow> \<not> completed (after_exit c x)"
  by (cases x) (auto simp: after_exit_def split: option.splits sum.splits)

lemma after_exit_skipped:
  "exit_actions c x = [] \<Longrightarrow> exit_skips_wait c \<and> after_exit c x = Some (Inl (LibraryError KeyboardInterrupt))"
  by (simp add: exit_actions_def after_exit_def split: if_splits)

lemma not_completed_library: "is_library_error e \<Longrightarrow> \<not> completed (Some (Inl e))"
  by (cases e) simp_all

lemma takeWhile_io:
  "list_all is_io pre \<Longrightarrow> takeWhile (\<lambda>a. a \<noteq> Wait None) (pre @ Wait None # post) = pre"
  by (induction pre) auto

lemma dropWhile_io:
  "list_all is_io pre \<Longrightarrow> dropWhile (\<lambda>a. a \<noteq> Wait None) (pre @ Wait None # post) = Wait None # post"
  by (induction pre) auto

text \<open>
  The shape of the trace of a run that has entered the \<open>with\<close> block: selects and
  reads, then the \<open>wait()\<close> of the body unless draining blocked or raised, then the
  calls of the handler, then those of \<open>Popen.__exit__\<close>.
\<close>

lemma run_trace_shape:
  assumes "popen_result c = None" and "run_subprocess args' live pipe c = (res, w)"
  shows "\<exists>pre mid post ex.
           trace w = pre @ mid @ post @ ex \<and> list_all is_io pre \<and>
           (mid = [] \<or> mid = [Wait None]) \<and> (post = [] \<or> post = cleanup_actions c) \<and>
           (ex = [] \<or> ex = [ExitWait]) \<and>
           (mid = [] \<longrightarrow> pipe \<and> \<not> completed res) \<and>
           (post \<noteq> [] \<longrightarrow> \<not> completed res) \<and>
           (completed res \<longrightarrow> ex = [ExitWait]) \<and>
           (pipe \<and> mid \<noteq> [] \<longrightarrow>
              Read Stdout 8192 (Inr []) \<in> set pre \<and> Read Stderr 8192 (Inr []) \<in> set pre) \<and>
           (ex = [] \<and> res \<noteq> None \<longrightarrow>
              exit_skips_wait c \<and> res = Some (Inl (LibraryError KeyboardInterrupt)))"
proof -
  obtain r w1 where t: "try_body live pipe c (init_world c) = (r, w1)"
    by (cases "try_body live pipe c (init_world c)")
  have raised_shape: "\<exists>post ex. trace w = trace w1 @ post @ ex \<and>
      (post = [] \<or> post = cleanup_actions c) \<and> (ex = [] \<or> ex = [ExitWait]) \<and>
      \<not> completed res \<and>
      (ex = [] \<and> res \<noteq> None \<longrightarrow>
         exit_skips_wait c \<and> res = Some (Inl (LibraryError KeyboardInterrupt)))"
    if r: "r = Some (Inl (LibraryError f))" for f
  proof (cases "is_Exception (LibraryError f)")
    case True
    let ?x = "cleanup_raises c (LibraryError f)"
    from run_subprocess_raised[OF assms(1), of live pipe "LibraryError f" w1 args'] t r assms(2) True
    have tr: "trace w = trace w1 @ cleanup_actions c @ exit_actions c ?x"
      and res: "res = (if cleanup_reaps c then Some (Inl (LibraryError f)) else after_exit c ?x)"
      by auto
    have lib: "is_library_error ?x" by (simp add: cleanup_raises_library)
    have nc: "\<not> completed res"
      using res lib by (simp add: after_exit_not_completed)
    have cl: "cleanup_actions c \<noteq> []" by (simp add: cleanup_actions_def)
    have sk: "exit_skips_wait c \<and> res = Some (Inl (LibraryError KeyboardInterrupt))"
      if e: "exit_actions c ?x = []"
    proof -
      from e have x: "exit_skips_wait c" "?x = LibraryError KeyboardInterrupt"
        by (simp_all add: exit_actions_def split: if_splits)
      show ?thesis
      proof (cases "cleanup_reaps c")
        case True
        with x res cleanup_reaps_raises[of c "LibraryError f"] show ?thesis by simp
      next
        case False
        with x res after_exit_skipped[OF e] show ?thesis by simp
      qed
    qed
    show ?thesis
      using tr nc sk exit_actions_cases[of c ?x]
      by (intro exI[of _ "cleanup_actions c"] exI[of _ "exit_actions c ?x"]) auto
  next
    case False
    from run_subprocess_raised[OF assms(1), of live pipe "LibraryError f" w1 args'] t r assms(2) False
    have tr: "trace w = trace w1 @ exit_actions c (LibraryError f)"
      and res: "res = after_exit c (LibraryError f)"
      by auto
    have nc: "\<not> completed res"
      using res by (simp add: after_exit_not_completed)
    show ?thesis
      using tr nc res exit_actions_cases[of c "LibraryError f"]
        after_exit_skipped[of c "LibraryError f"]
      by (intro exI[of _ "[]"] exI[of _ "exit_actions c (LibraryError f)"]) auto
  qed
  from t show ?thesis
  proof (cases rule: try_body_cases)
    case blocked
    with assms t have "res = None" "w = w1" by (simp_all add: run_subprocess_blocked)
    with blocked show ?thesis
      by (intro exI[of _ "trace w1"] exI[of _ "[]"]) simp
  next
    case (raised f)
    from raised_shape[OF raised(2)] obtain post ex where
      "trace w = trace w1 @ post @ ex" "post = [] \<or> post = cleanup_actions c"
      "ex = [] \<or> ex = [ExitWait]" "\<not> completed res"
      "ex = [] \<and> res \<noteq> None \<longrightarrow>
         exit_skips_wait c \<and> res = Some (Inl (LibraryError KeyboardInterrupt))"
      by blast
    with raised(1,3) show ?thesis
      by (intro exI[of _ "trace w1"] exI[of _ "[]"] exI[of _ post] exI[of _ ex]) simp
  next
    case (waited pre)
    show ?thesis
    proof (cases "wait_result c")
      case None
      with waited(5) assms t have "res = None" "w = w1" by (simp_all add: run_subprocess_blocked)
      with waited(1,2,3) show ?thesis
        by (intro exI[of _ pre] exI[of _ "[Wait None]"] exI[of _ "[]"]) simp
    next
      case (Some x)
      show ?thesis
      proof (cases x)
        case (Inl f)
        with Some waited(5) have "r = Some (Inl (LibraryError f))" by simp
        from raised_shape[OF this] obtain post ex where
          "trace w = trace w1 @ post @ ex" "post = [] \<or> post = cleanup_actions c"
          "ex = [] \<or> ex = [ExitWait]" "\<not> completed res"
          "ex = [] \<and> res \<noteq> None \<longrightarrow>
             exit_skips_wait c \<and> res = Some (Inl (LibraryError KeyboardInterrupt))"
          by blast
        with waited(1,2,3) show ?thesis
          by (intro exI[of _ pre] exI[of _ "[Wait None]"] exI[of _ post] exI[of _ ex]) simp
      next
        case (Inr rc)
        with Some waited(5) t obtain out err where
          "try_body live pipe c (init_world c) = (Some (Inr (rc, out, err)), w1)" by simp
        from run_subprocess_waited[OF assms(1) this, of args'] assms(2)
        have "trace w = trace w1 @ [ExitWait]" "res \<noteq> None" by auto
        with waited(1,2,3) show ?thesis
          by (intro exI[of _ pre] exI[of _ "[Wait None]"] exI[of _ "[]"] exI[of _ "[ExitWait]"]) simp
      qed
    qed
  qed
qed

text \<open>
  C8, as the claim states it, fails. In the run of a child that writes one line and
  exits with 0, \<open>wait()\<close> is called twice: by the function after the last end-of-file,
  and by \<open>Popen.__exit__\<close> when the \<open>with\<close> block is left. Without capture the result is
  returned after these two calls, and no stream has reported end-of-file. And when the
  first read raises, the function itself never calls \<open>wait()\<close>: the waits are the
  \<open>wait(1)\<close> of the handler and the \<open>wait()\<close> of \<open>Popen.__exit__\<close>, both made before any
  stream has reported end-of-file.
\<close>

theorem wait_once_after_eof_counterexample:
  "fst (run_subprocess [''echo'', ''hello''] True True (hello_child 0)) =
     Some (Inr \<lparr>args = [''echo'', ''hello''], returncode = 0,
                 stdout = Some [0x68, 0x65, 0x6C, 0x6C, 0x6F, 0x0A], stderr = Some []\<rparr>)
   \<and> trace (snd (run_subprocess [''echo'', ''hello''] True True (hello_child 0))) =
       [Select (Inr [Stdout, Stderr]), Read Stdout 8192 (Inr [0x68, 0x65, 0x6C, 0x6C, 0x6F, 0x0A]),
        Read Stderr 8192 (Inr []), Select (Inr [Stdout]), Read Stdout 8192 (Inr []), Wait None,
        ExitWait]
   \<and> fst (run_subprocess [''cmd''] False False (hello_child 0)) =
     Some (Inr \<lparr>args = [''cmd''], returncode = 0, stdout = None, stderr = None\<rparr>)
   \<and> trace (snd (run_subprocess [''cmd''] False False (hello_child 0))) = [Wait None, ExitWait]
   \<and> trace (snd (run_subprocess [''cmd''] False True failing_read_child)) =
       [Select (Inr [Stdout, Stderr]), Read Stdout 8192 (Inl (OSError 5)),
        Terminate, Wait (Some 1), Kill, ExitWait]"
  by (simp add: run_simps failing_read_child_def hello_child_def)

text \<open>
  C8, amended. In every run the function itself calls \<open>wait()\<close> without a timeout at
  most once, and \<open>Popen.__exit__\<close> calls it at most once more, as the last library call
  of the run. With capture enabled the function calls it only after both standard
  output and standard error have reported end-of-file, and no \<open>select\<close> or read follows
  it. Every run that returns a value or raises \<open>CalledProcessError\<close> consists of selects
  and reads, then the \<open>wait()\<close> of the function, then the \<open>wait()\<close> of \<open>Popen.__exit__\<close>,
  and nothing else. Every run that enters the \<open>with\<close> block and ends has called the
  \<open>wait()\<close> of \<open>Popen.__exit__\<close>, unless it ends with \<open>KeyboardInterrupt\<close> under Python
  3.7 or later.
\<close>

theorem wait_once_after_eof:
  assumes "run_subprocess args' live pipe c = (res, w)"
  shows "count_list (trace w) (Wait None) \<le> 1
         \<and> count_list (trace w) ExitWait \<le> 1
         \<and> (ExitWait \<in> set (trace w) \<longrightarrow> last (trace w) = ExitWait)
         \<and> (pipe \<and> Wait None \<in> set (trace w) \<longrightarrow>
              Read Stdout 8192 (Inr []) \<in> set (takeWhile (\<lambda>a. a \<noteq> Wait None) (trace w)) \<and>
              Read Stderr 8192 (Inr []) \<in> set (takeWhile (\<lambda>a. a \<noteq> Wait None) (trace w)) \<and>
              list_all (\<lambda>a. \<not> is_io a) (dropWhile (\<lambda>a. a \<noteq> Wait None) (trace w)))
         \<and> (completed res \<longrightarrow>
              trace w = takeWhile (\<lambda>a. a \<noteq> Wait None) (trace w) @ [Wait None, ExitWait] \<and>
              list_all is_io (takeWhile (\<lambda>a. a \<noteq> Wait None) (trace w)))
         \<and> (popen_result c = None \<and> res \<noteq> None \<and>
              \<not> (exit_skips_wait c \<and> res = Some (Inl (LibraryError KeyboardInterrupt)))
            \<longrightarrow> ExitWait \<in> set (trace w))"
proof (cases "popen_result c")
  case (Some f)
  with assms show ?thesis by (auto simp: run_subprocess_def init_world_def)
next
  case None
  from run_trace_shape[OF None assms] obtain pre mid post ex where
    tr: "trace w = pre @ mid @ post @ ex" and io: "list_all is_io pre"
    and mid: "mid = [] \<or> mid = [Wait None]" and post: "post = [] \<or> post = cleanup_actions c"
    and ex: "ex = [] \<or> ex = [ExitWait]"
    and m0: "mid = [] \<longrightarrow> pipe \<and> \<not> completed res"
    and p0: "post \<noteq> [] \<longrightarrow> \<not> completed res"
    and c0: "completed res \<longrightarrow> ex = [ExitWait]"
    and eof: "pipe \<and> mid \<noteq> [] \<longrightarrow>
              Read Stdout 8192 (Inr []) \<in> set pre \<and> Read Stderr 8192 (Inr []) \<in> set pre"
    and e0: "ex = [] \<and> res \<noteq> None \<longrightarrow>
              exit_skips_wait c \<and> res = Some (Inl (LibraryError KeyboardInterrupt))"
    by blast
  have cp: "count_list post (Wait None) = 0" "count_list post ExitWait = 0"
    "ExitWait \<notin> set post" "Wait None \<notin> set post" "list_all (\<lambda>a. \<not> is_io a) post"
    using post by (auto simp: cleanup_actions_def)
  have cm: "count_list mid (Wait None) \<le> 1" "count_list mid ExitWait = 0" "ExitWait \<notin> set mid"
    using mid by auto
  have ce: "count_list ex (Wait None) = 0" "count_list ex ExitWait \<le> 1" "Wait None \<notin> set ex"
    "list_all (\<lambda>a. \<not> is_io a) ex"
    using ex by auto
  have 1: "count_list (trace w) (Wait None) \<le> 1"
    using tr io cp(1) cm(1) ce(1) by (simp add: io_count)
  have 2: "count_list (trace w) ExitWait \<le> 1"
    using tr io cp(2) cm(2) ce(2) by (simp add: io_count_exit)
  have 3: "last (trace w) = ExitWait" if "ExitWait \<in> set (trace w)"
  proof -
    from that tr io_not_exit[OF io] cp(3) cm(3) have "ExitWait \<in> set ex" by auto
    with ex have "ex = [ExitWait]" by auto
    with tr show ?thesis by simp
  qed
  have 4: "Read Stdout 8192 (Inr []) \<in> set (takeWhile (\<lambda>a. a \<noteq> Wait None) (trace w)) \<and>
           Read Stderr 8192 (Inr []) \<in> set (takeWhile (\<lambda>a. a \<noteq> Wait None) (trace w)) \<and>
           list_all (\<lambda>a. \<not> is_io a) (dropWhile (\<lambda>a. a \<noteq> Wait None) (trace w))"
    if "pipe" "Wait None \<in> set (trace w)"
  proof -
    from that(2) tr io_not_wait[OF io, of None] cp(4) ce(3) have "Wait None \<in> set mid" by auto
    with mid have m: "mid = [Wait None]" by auto
    with tr have "trace w = pre @ Wait None # (post @ ex)" by simp
    with io have "takeWhile (\<lambda>a. a \<noteq> Wait None) (trace w) = pre"
      "dropWhile (\<lambda>a. a \<noteq> Wait None) (trace w) = Wait None # (post @ ex)"
      by (simp_all add: takeWhile_io dropWhile_io)
    with eof that(1) m cp(5) ce(4) show ?thesis by simp
  qed
  have 5: "trace w = takeWhile (\<lambda>a. a \<noteq> Wait None) (trace w) @ [Wait None, ExitWait] \<and>
           list_all is_io (takeWhile (\<lambda>a. a \<noteq> Wait None) (trace w))"
    if "completed res"
  proof -
    from that m0 mid have m: "mid = [Wait None]" by auto
    from that p0 have p: "post = []" by auto
    from that c0 have e: "ex = [ExitWait]" by auto
    from tr m p e have "trace w = pre @ Wait None # [ExitWait]" by simp
    with io show ?thesis by (simp add: takeWhile_io)
  qed
  have 6: "ExitWait \<in> set (trace w)"
    if "res \<noteq> None" "\<not> (exit_skips_wait c \<and> res = Some (Inl (LibraryError KeyboardInterrupt)))"
  proof -
    from that e0 ex have "ex = [ExitWait]" by auto
    with tr show ?thesis by simp
  qed
  from 1 2 3 4 5 6 show ?thesis by blast
qed

theorem wait_once_after_eof_witness:
  "count_list (trace (snd (run_subprocess [''echo'', ''hello''] True True (hello_child 0)))) (Wait None) \<le> 1
   \<and> last (trace (snd (run_subprocess [''echo'', ''hello''] True True (hello_child 0)))) = ExitWait
   \<and> Read Stdout 8192 (Inr []) \<in> set (takeWhile (\<lambda>a. a \<noteq> Wait None)
        (trace (snd (run_subprocess [''echo'', ''hello''] True True (hello_child 0)))))
   \<and> trace (snd (run_subprocess [''echo'', ''hello''] True True (hello_child 0))) =
       takeWhile (\<lambda>a. a \<noteq> Wait None)
         (trace (snd (run_subprocess [''echo'', ''hello''] True True (hello_child 0))))
       @ [Wait None, ExitWait]"
proof -
  have c: "completed (fst (run_subprocess [''echo'', ''hello''] True True (hello_child 0)))"
    by (simp add: hello_0_fst)
  have m: "Wait None \<in> set (trace (snd (run_subprocess [''echo'', ''hello''] True True (hello_child 0))))"
    and x: "ExitWait \<in> set (trace (snd (run_subprocess [''echo'', ''hello''] True True (hello_child 0))))"
    by (simp_all add: hello_0_trace)
  show ?thesis
    using wait_once_after_eof[OF prod.collapse[symmetric], of "[''echo'', ''hello'']" True True "hello_child 0"]
      c m x by blast
qed

section \<open>Chunking invariance\<close>

lemma scripted_trace: "scripted tot l (w\<lparr>trace := t\<rparr>) = scripted tot l w"
  by (simp add: scripted_def)

lemma need_trace: "need l (w\<lparr>trace := t\<rparr>) fd = need l w fd"
  by (simp add: need_def)

lemma handle_fd_scripted:
  assumes s: "scripted tot l w" and m: "fd \<in> set (fds l)"
  shows "\<exists>l' w'. handle_fd live fd l w = (Inr l', w') \<and> scripted tot l' w' \<and>
           Suc (need l' w' fd) = need l w fd \<and> (\<forall>x. x \<noteq> fd \<longrightarrow> need l' w' x = need l w x)"
proof -
  from s have d: "distinct (fds l)" by (simp add: scripted_def)
  from s obtain ps where ps: "reads w fd = map Inr ps" "[] \<notin> set ps"
      "concat (lists l fd) @ concat ps = tot fd"
    unfolding scripted_def by blast
  from s have others: "\<exists>qs. reads w x = map Inr qs \<and> [] \<notin> set qs \<and>
                  concat (lists l x) @ concat qs = tot x \<and>
                  (x \<notin> set (fds l) \<longrightarrow> qs = [])" for x
    unfolding scripted_def by blast
  show ?thesis
  proof (cases ps)
    case Nil
    with ps have nr: "next_read w fd = Inr []" by (simp add: next_read_def)
    show ?thesis
    proof (cases rule: handle_fd_cases[of w fd live l])
      case (fault f w')
      with nr show ?thesis by simp
    next
      case (chunk b l' w')
      with nr show ?thesis by simp
    next
      case (absent w')
      with m show ?thesis by simp
    next
      case (eof l' w')
      have "scripted tot l' w'"
        unfolding scripted_def
      proof (intro conjI allI)
        show "distinct (fds l')" using eof d by simp
        fix x
        show "\<exists>qs. reads w' x = map Inr qs \<and> [] \<notin> set qs \<and>
                  concat (lists l' x) @ concat qs = tot x \<and> (x \<notin> set (fds l') \<longrightarrow> qs = [])"
        proof (cases "x = fd")
          case True
          with eof ps Nil show ?thesis by simp
        next
          case False
          with others[of x] eof show ?thesis by (auto simp: in_set_remove1)
        qed
      qed
      moreover have "Suc (need l' w' fd) = need l w fd"
        using eof m d ps Nil by (simp add: need_def)
      moreover have "need l' w' x = need l w x" if "x \<noteq> fd" for x
        using eof that by (simp add: need_def in_set_remove1)
      ultimately show ?thesis using eof(3) by blast
    qed
  next
    case (Cons p ps')
    with ps have nr: "next_read w fd = Inr p" and pn: "p \<noteq> []" by (auto simp: next_read_def)
    show ?thesis
    proof (cases rule: handle_fd_cases[of w fd live l])
      case (fault f w')
      with nr show ?thesis by simp
    next
      case (eof l' w')
      with nr pn show ?thesis by simp
    next
      case (absent w')
      with m show ?thesis by simp
    next
      case (chunk b l' w')
      with nr have b: "b = p" by simp
      have "scripted tot l' w'"
        unfolding scripted_def
      proof (intro conjI allI)
        show "distinct (fds l')" using chunk d by simp
        fix x
        show "\<exists>qs. reads w' x = map Inr qs \<and> [] \<notin> set qs \<and>
                  concat (lists l' x) @ concat qs = tot x \<and> (x \<notin> set (fds l') \<longrightarrow> qs = [])"
        proof (cases "x = fd")
          case True
          have "reads w' fd = map Inr ps'" using chunk ps Cons by simp
          moreover have "[] \<notin> set ps'" using ps Cons by simp
          moreover have "concat (lists l' fd) @ concat ps' = tot fd"
            using chunk ps Cons b by simp
          ultimately show ?thesis using True chunk m by auto
        next
          case False
          with others[of x] chunk show ?thesis by auto
        qed
      qed
      moreover have "Suc (need l' w' fd) = need l w fd"
        using chunk m ps Cons by (simp add: need_def)
      moreover have "need l' w' x = need l w x" if "x \<noteq> fd" for x
        using chunk that by (simp add: need_def)
      ultimately show ?thesis using chunk(3) by blast
    qed
  qed
qed

lemma for_ready_scripted:
  assumes "scripted tot l w" and "distinct ret" and "set ret \<subseteq> set (fds l)"
  shows "\<exists>l' w'. for_ready live ret l w = (Inr l', w') \<and> scripted tot l' w' \<and>
           (\<forall>x. need l' w' x + (if x \<in> set ret then 1 else 0) = need l w x)"
  using assms
proof (induction ret arbitrary: l w)
  case Nil
  then show ?case by simp
next
  case (Cons fd ret)
  from Cons.prems have m: "fd \<in> set (fds l)" by simp
  from handle_fd_scripted[OF Cons.prems(1) m, of live]
  obtain l1 w1 where h: "handle_fd live fd l w = (Inr l1, w1)" and s1: "scripted tot l1 w1"
    and n1: "Suc (need l1 w1 fd) = need l w fd"
    and n2: "\<And>x. x \<noteq> fd \<Longrightarrow> need l1 w1 x = need l w x"
    by blast
  have dr: "distinct ret" and nf: "fd \<notin> set ret" using Cons.prems(2) by simp_all
  have sub: "set ret \<subseteq> set (fds l1)"
  proof
    fix x assume x: "x \<in> set ret"
    with nf have "x \<noteq> fd" by auto
    then have "need l1 w1 x = need l w x" by (rule n2)
    moreover have "x \<in> set (fds l)" using x Cons.prems(3) by auto
    ultimately show "x \<in> set (fds l1)" by (simp add: need_def split: if_splits)
  qed
  from Cons.IH[OF s1 dr sub]
  obtain l' w' where f: "for_ready live ret l1 w1 = (Inr l', w')" and s': "scripted tot l' w'"
    and n': "\<And>x. need l' w' x + (if x \<in> set ret then 1 else 0) = need l1 w1 x"
    by blast
  have "need l' w' x + (if x \<in> set (fd # ret) then 1 else 0) = need l w x" for x
  proof (cases "x = fd")
    case True
    with n'[of fd] nf n1 show ?thesis by simp
  next
    case False
    with n'[of x] n2[of x] show ?thesis by simp
  qed
  with h f s' show ?case by simp
qed

lemma drain_scripted:
  assumes "scripted tot l w"
  shows "case drain live (map Inr readys) l w of
           (None, w') \<Rightarrow> \<exists>fd. rounds fd readys < need l w fd
         | (Some (Inl e), w') \<Rightarrow> False
         | (Some (Inr l'), w') \<Rightarrow> scripted tot l' w' \<and> fds l' = []"
  using assms
proof (induction readys arbitrary: l w)
  case Nil
  show ?case
  proof (cases "fds l")
    case Nil
    with \<open>scripted tot l w\<close> show ?thesis by simp
  next
    case (Cons fd rest)
    then have "0 < need l w fd" by (simp add: need_def)
    with Cons show ?thesis by (auto simp: rounds_def)
  qed
next
  case (Cons ready readys)
  show ?case
  proof (cases "fds l = []")
    case True
    with Cons.prems show ?thesis by simp
  next
    case ne: False
    let ?ret = "filter (\<lambda>fd. fd \<in> set ready) (fds l)"
    let ?w = "w\<lparr>trace := trace w @ [Select (Inr ?ret)]\<rparr>"
    have s: "scripted tot l ?w" using Cons.prems by (simp add: scripted_trace)
    have "distinct ?ret" using Cons.prems by (simp add: scripted_def)
    moreover have "set ?ret \<subseteq> set (fds l)" by auto
    ultimately obtain l1 w1 where f: "for_ready live ?ret l ?w = (Inr l1, w1)"
      and s1: "scripted tot l1 w1"
      and n: "\<And>x. need l1 w1 x + (if x \<in> set ?ret then 1 else 0) = need l w x"
      using for_ready_scripted[OF s, of ?ret live] by (auto simp: need_trace)
    have step: "drain live (map Inr (ready # readys)) l w = drain live (map Inr readys) l1 w1"
      using ne f by simp
    obtain r w' where dr: "drain live (map Inr readys) l1 w1 = (r, w')"
      by (cases "drain live (map Inr readys) l1 w1")
    show ?thesis
    proof (cases r)
      case None
      with Cons.IH[OF s1] dr obtain fd where lt: "rounds fd readys < need l1 w1 fd" by auto
      then have "fd \<in> set (fds l)" using n[of fd] by (auto simp: need_def split: if_splits)
      then have "(fd \<in> set ?ret) = (fd \<in> set ready)" by simp
      with lt n[of fd] have "rounds fd (ready # readys) < need l w fd"
        by (auto simp: rounds_def split: if_splits)
      with step dr None show ?thesis by auto
    next
      case (Some x)
      with Cons.IH[OF s1] dr step show ?thesis by (cases x) auto
    qed
  qed
qed

lemma scripted_init:
  assumes "read_results c Stdout = map Inr cs_out" and "[] \<notin> set cs_out"
    and "read_results c Stderr = map Inr cs_err" and "[] \<notin> set cs_err"
  shows "scripted (\<lambda>fd. case fd of Stdout \<Rightarrow> concat cs_out | Stderr \<Rightarrow> concat cs_err)
           (init_locals True) (init_world c)"
  unfolding scripted_def
proof (intro conjI allI)
  show "distinct (fds (init_locals True))" by (simp add: init_locals_def)
  fix fd
  show "\<exists>ps. reads (init_world c) fd = map Inr ps \<and> [] \<notin> set ps \<and>
          concat (lists (init_locals True) fd) @ concat ps =
            (case fd of Stdout \<Rightarrow> concat cs_out | Stderr \<Rightarrow> concat cs_err) \<and>
          (fd \<notin> set (fds (init_locals True)) \<longrightarrow> ps = [])"
    using assms by (cases fd) (simp_all add: init_locals_def init_world_def)
qed

lemma scripted_final:
  assumes "scripted tot l w" and "fds l = []"
  shows "concat (lists l fd) = tot fd"
proof -
  from assms(1) obtain ps where "concat (lists l fd) @ concat ps = tot fd"
    "fd \<notin> set (fds l) \<longrightarrow> ps = []"
    unfolding scripted_def by blast
  with assms(2) show ?thesis by simp
qed

lemma run_scripted:
  assumes "read_results c Stdout = map Inr cs_out" and "[] \<notin> set cs_out"
    and "read_results c Stderr = map Inr cs_err" and "[] \<notin> set cs_err"
    and "select_results c = map Inr readys"
    and "popen_result c = None" and "wait_result c = Some (Inr rc)"
  shows "(fst (run_subprocess args' live True c) = None
          \<or> fst (run_subprocess args' live True c) =
              Some (if rc \<noteq> 0
                    then Inl (CalledProcessError rc args' (Some (concat cs_out)) (Some (concat cs_err)))
                    else Inr \<lparr>args = args', returncode = 0,
                              stdout = Some (concat cs_out), stderr = Some (concat cs_err)\<rparr>))
         \<and> (length cs_out < rounds Stdout readys \<and> length cs_err < rounds Stderr readys
              \<longrightarrow> fst (run_subprocess args' live True c) \<noteq> None)"
proof -
  let ?tot = "\<lambda>fd. case fd of Stdout \<Rightarrow> concat cs_out | Stderr \<Rightarrow> concat cs_err"
  have s: "scripted ?tot (init_locals True) (init_world c)"
    using assms(1-4) by (rule scripted_init)
  obtain r w where d: "drain live (map Inr readys) (init_locals True) (init_world c) = (r, w)"
    by (cases "drain live (map Inr readys) (init_locals True) (init_world c)")
  note ds = drain_scripted[OF s, where live = live and readys = readys]
  show ?thesis
  proof (cases r)
    case None
    with ds d obtain fd where "rounds fd readys < need (init_locals True) (init_world c) fd"
      by auto
    then have "rounds Stdout readys \<le> length cs_out \<or> rounds Stderr readys \<le> length cs_err"
      using assms(1,3) by (cases fd) (simp_all add: need_def init_locals_def init_world_def)
    moreover have "try_body live True c (init_world c) = (None, w)"
      using None d assms(5) by (simp add: try_body_def)
    then have "fst (run_subprocess args' live True c) = None"
      using assms(6) by (simp add: run_subprocess_blocked)
    ultimately show ?thesis by auto
  next
    case (Some x)
    show ?thesis
    proof (cases x)
      case (Inl e)
      with Some ds d show ?thesis by simp
    next
      case (Inr l)
      with Some ds d have sc: "scripted ?tot l w" and e: "fds l = []" by simp_all
      have "concat (lists l Stdout) = concat cs_out" "concat (lists l Stderr) = concat cs_err"
        using scripted_final[OF sc e, of Stdout] scripted_final[OF sc e, of Stderr] by simp_all
      with Inr Some d assms(5,7)
      have "try_body live True c (init_world c) =
          (Some (Inr (rc, Some (concat cs_out), Some (concat cs_err))),
           snd (try_body live True c (init_world c)))"
        by (simp add: try_body_def Let_def)
      from run_subprocess_waited[OF assms(6) this, of args'] show ?thesis by simp
    qed
  qed
qed

text \<open>
  C2. Let the reads on standard output return the chunks \<open>cs_out\<close> and those on standard
  error the chunks \<open>cs_err\<close>, none of them empty (an empty read is end-of-file), and
  let no library call fail. Then, whatever the chunks are and in whatever order the
  streams become ready, a run that ends carries exactly \<open>concat cs_out\<close> and
  \<open>concat cs_err\<close> as captured output; and the run does end when each stream is ready
  in more \<open>select\<close> results than it has chunks.
\<close>

theorem chunking_invariance:
  assumes "read_results c Stdout = map Inr cs_out" and "[] \<notin> set cs_out"
    and "read_results c Stderr = map Inr cs_err" and "[] \<notin> set cs_err"
    and "select_results c = map Inr readys"
    and "popen_result c = None" and "wait_result c = Some (Inr rc)"
  shows "(fst (run_subprocess args' live True c) = None
          \<or> fst (run_subprocess args' live True c) =
              Some (if rc \<noteq> 0
                    then Inl (CalledProcessError rc args' (Some (concat cs_out)) (Some (concat cs_err)))
                    else Inr \<lparr>args = args', returncode = 0,
                              stdout = Some (concat cs_out), stderr = Some (concat cs_err)\<rparr>))
         \<and> (length cs_out < rounds Stdout readys \<and> length cs_err < rounds Stderr readys
              \<longrightarrow> fst (run_subprocess args' live True c) \<noteq> None)"
  using assms by (rule run_scripted)

theorem chunking_invariance_witness:
  "fst (run_subprocess [''cmd''] True True
          (chunked_child [[Stdout], [Stdout, Stderr], [Stdout], [Stderr]]
             [[0x61, 0x0A], [0x62]] [[0x65]])) =
     Some (Inr \<lparr>args = [''cmd''], returncode = 0,
                 stdout = Some [0x61, 0x0A, 0x62], stderr = Some [0x65]\<rparr>)
   \<and> fst (run_subprocess [''cmd''] True True
          (chunked_child [[Stdout, Stderr], [Stdout, Stderr], [Stdout]]
             [[0x61], [0x0A, 0x62]] [[0x65]])) =
     Some (Inr \<lparr>args = [''cmd''], returncode = 0,
                 stdout = Some [0x61, 0x0A, 0x62], stderr = Some [0x65]\<rparr>)"
proof -
  have h: "read_results (chunked_child readys cs_out cs_err) Stdout = map Inr cs_out"
    "read_results (chunked_child readys cs_out cs_err) Stderr = map Inr cs_err"
    "select_results (chunked_child readys cs_out cs_err) = map Inr readys"
    "popen_result (chunked_child readys cs_out cs_err) = None"
    "wait_result (chunked_child readys cs_out cs_err) = Some (Inr 0)"
    for readys cs_out cs_err
    by (simp_all add: chunked_child_def child_of_def)
  note g1 = h[of "[[Stdout], [Stdout, Stderr], [Stdout], [Stderr]]" "[[0x61, 0x0A], [0x62]]" "[[0x65]]"]
  note g2 = h[of "[[Stdout, Stderr], [Stdout, Stderr], [Stdout]]" "[[0x61], [0x0A, 0x62]]" "[[0x65]]"]
  have n1: "[] \<notin> set [[0x61, 0x0A], [0x62 :: byte]]" and n2: "[] \<notin> set [[0x65 :: byte]]"
    and n3: "[] \<notin> set [[0x61], [0x0A, 0x62 :: byte]]"
    by simp_all
  have r1: "length [[0x61, 0x0A], [0x62 :: byte]] < rounds Stdout [[Stdout], [Stdout, Stderr], [Stdout], [Stderr]]
      \<and> length [[0x65 :: byte]] < rounds Stderr [[Stdout], [Stdout, Stderr], [Stdout], [Stderr]]"
    and r2: "length [[0x61], [0x0A, 0x62 :: byte]] < rounds Stdout [[Stdout, Stderr], [Stdout, Stderr], [Stdout]]
      \<and> length [[0x65 :: byte]] < rounds Stderr [[Stdout, Stderr], [Stdout, Stderr], [Stdout]]"
    by (simp_all add: rounds_def)
  have c1: "concat [[0x61, 0x0A], [0x62 :: byte]] = [0x61, 0x0A, 0x62]"
    and c2: "concat [[0x61], [0x0A, 0x62 :: byte]] = [0x61, 0x0A, 0x62]"
    and c3: "concat [[0x65 :: byte]] = [0x65]"
    by simp_all
  have a: "fst (run_subprocess [''cmd''] True True
          (chunked_child [[Stdout], [Stdout, Stderr], [Stdout], [Stderr]]
             [[0x61, 0x0A], [0x62]] [[0x65]])) =
     Some (Inr \<lparr>args = [''cmd''], returncode = 0,
                 stdout = Some [0x61, 0x0A, 0x62], stderr = Some [0x65]\<rparr>)"
    using chunking_invariance[OF g1(1) n1 g1(2) n2 g1(3) g1(4) g1(5), of "[''cmd'']" True] r1
    unfolding c1 c3 by auto
  have b: "fst (run_subprocess [''cmd''] True True
          (chunked_child [[Stdout, Stderr], [Stdout, Stderr], [Stdout]]
             [[0x61], [0x0A, 0x62]] [[0x65]])) =
     Some (Inr \<lparr>args = [''cmd''], returncode = 0,
                 stdout = Some [0x61, 0x0A, 0x62], stderr = Some [0x65]\<rparr>)"
    using chunking_invariance[OF g2(1) n3 g2(2) n2 g2(3) g2(4) g2(5), of "[''cmd'']" True] r2
    unfolding c2 c3 by auto
  from a b show ?thesis by simp
qed

section \<open>Exit code and outcome\<close>

lemma bytes_read_waited:
  "bytes_read fd (pre @ [Wait None, ExitWait]) = bytes_read fd pre"
  by (simp add: bytes_read_def)

lemma run_completed:
  assumes "completed (fst (run_subprocess args' live True c))
           \<or> (Wait None \<in> set (trace (snd (run_subprocess args' live True c)))
               \<and> (\<exists>rc. wait_result c = Some (Inr rc)))"
  shows "\<exists>rc. wait_result c = Some (Inr rc) \<and>
           fst (run_subprocess args' live True c) =
             Some (if rc \<noteq> 0
                   then Inl (CalledProcessError rc args'
                          (Some (bytes_read Stdout (trace (snd (run_subprocess args' live True c)))))
                          (Some (bytes_read Stderr (trace (snd (run_subprocess args' live True c))))))
                   else Inr \<lparr>args = args', returncode = 0,
                          stdout = Some (bytes_read Stdout (trace (snd (run_subprocess args' live True c)))),
                          stderr = Some (bytes_read Stderr (trace (snd (run_subprocess args' live True c))))\<rparr>)"
proof (cases "popen_result c")
  case (Some f)
  with assms show ?thesis by (simp add: run_subprocess_def init_world_def)
next
  case None
  obtain r w1 where t: "try_body live True c (init_world c) = (r, w1)"
    by (cases "try_body live True c (init_world c)")
  have raised_no: "\<not> completed (fst (run_subprocess args' live True c))
      \<and> (Wait None \<in> set (trace (snd (run_subprocess args' live True c)))
           \<longrightarrow> Wait None \<in> set (trace w1))" if "r = Some (Inl (LibraryError f))" for f
    using run_subprocess_raised[OF None, of live True "LibraryError f" w1 args'] t that
    by (simp add: after_exit_not_completed cleanup_raises_library wait_not_cleanup wait_not_exit)
  from t show ?thesis
  proof (cases rule: try_body_cases)
    case blocked
    with None t assms io_not_wait[of "trace w1" None] show ?thesis
      by (simp add: run_subprocess_blocked)
  next
    case (raised f)
    with raised_no[of f] assms io_not_wait[of "trace w1" None] show ?thesis by blast
  next
    case (waited pre)
    show ?thesis
    proof (cases "wait_result c")
      case n: None
      with waited(5) None t assms show ?thesis by (simp add: run_subprocess_blocked)
    next
      case (Some x)
      show ?thesis
      proof (cases x)
        case (Inl f)
        with Some waited(5) raised_no[of f] assms show ?thesis by simp
      next
        case (Inr rc)
        with Some waited(5) t have "try_body live True c (init_world c) =
            (Some (Inr (rc, Some (bytes_read Stdout pre), Some (bytes_read Stderr pre))), w1)"
          by simp
        from run_subprocess_waited[OF None this, of args'] Some Inr waited(1) show ?thesis
          by (simp add: bytes_read_waited)
      qed
    qed
  qed
qed

text \<open>
  C1, as the claim states it, fails: the first read raises \<open>OSError\<close> 5, the handler
  calls \<open>terminate()\<close> and the child exits on that signal within the second, so that
  \<open>wait(1)\<close> returns \<open>-15\<close>. The exit code of the child is not zero, and the caller gets
  the \<open>OSError\<close> of the read, not \<open>CalledProcessError\<close>.
\<close>

theorem run_subprocess_exit_code_counterexample:
  "wait_timeout_result terminated_child = Inr (- 15)
   \<and> fst (run_subprocess [''cmd''] False True terminated_child) =
       Some (Inl (LibraryError (OSError 5)))
   \<and> trace (snd (run_subprocess [''cmd''] False True terminated_child)) =
       [Select (Inr [Stdout, Stderr]), Read Stdout 8192 (Inl (OSError 5)),
        Terminate, Wait (Some 1), ExitWait]"
  by (simp add: run_simps terminated_child_def)

text \<open>
  C1, amended. With capture enabled, in every run: the call raises \<open>CalledProcessError\<close>
  only if its own \<open>process.wait()\<close> has returned an exit code that is not zero, and the
  exception carries that code, the argument vector and, for each stream, all the
  bytes that the reads on it returned, in order; the call returns only if that
  \<open>wait()\<close> has returned 0, and the value is a \<open>CompletedProcess\<close> with the arguments,
  exit code 0 and the same two buffers. Conversely, whenever that \<open>wait()\<close> is called and
  returns \<open>rc\<close>, the call raises that exception when \<open>rc\<close> is not zero and returns that
  value when it is. That is the case, in particular, when no library call fails, the
  reads return the non-empty chunks \<open>cs_out\<close> and \<open>cs_err\<close> and then end-of-file, and
  each stream is ready in more \<open>select\<close> results than it has chunks: the buffers are
  then \<open>concat cs_out\<close> and \<open>concat cs_err\<close>.
\<close>

theorem run_subprocess_exit_code:
  "(fst (run_subprocess args' live True c) = Some (Inl (CalledProcessError rc a out err)) \<longrightarrow>
      wait_result c = Some (Inr rc) \<and> rc \<noteq> 0 \<and> a = args' \<and>
      out = Some (bytes_read Stdout (trace (snd (run_subprocess args' live True c)))) \<and>
      err = Some (bytes_read Stderr (trace (snd (run_subprocess args' live True c)))))
   \<and> (fst (run_subprocess args' live True c) = Some (Inr cp) \<longrightarrow>
      wait_result c = Some (Inr 0) \<and>
      cp = \<lparr>args = args', returncode = 0,
            stdout = Some (bytes_read Stdout (trace (snd (run_subprocess args' live True c)))),
            stderr = Some (bytes_read Stderr (trace (snd (run_subprocess args' live True c))))\<rparr>)
   \<and> (Wait None \<in> set (trace (snd (run_subprocess args' live True c))) \<and>
      wait_result c = Some (Inr rc') \<longrightarrow>
      fst (run_subprocess args' live True c) =
        Some (if rc' \<noteq> 0
              then Inl (CalledProcessError rc' args'
                     (Some (bytes_read Stdout (trace (snd (run_subprocess args' live True c)))))
                     (Some (bytes_read Stderr (trace (snd (run_subprocess args' live True c))))))
              else Inr \<lparr>args = args', returncode = 0,
                     stdout = Some (bytes_read Stdout (trace (snd (run_subprocess args' live True c)))),
                     stderr = Some (bytes_read Stderr (trace (snd (run_subprocess args' live True c))))\<rparr>))
   \<and> (popen_result c = None \<and> select_results c = map Inr readys \<and>
      read_results c Stdout = map Inr cs_out \<and> [] \<notin> set cs_out \<and>
      read_results c Stderr = map Inr cs_err \<and> [] \<notin> set cs_err \<and>
      length cs_out < rounds Stdout readys \<and> length cs_err < rounds Stderr readys \<and>
      wait_result c = Some (Inr rc') \<longrightarrow>
      fst (run_subprocess args' live True c) =
        Some (if rc' \<noteq> 0
              then Inl (CalledProcessError rc' args' (Some (concat cs_out)) (Some (concat cs_err)))
              else Inr \<lparr>args = args', returncode = 0,
                     stdout = Some (concat cs_out), stderr = Some (concat cs_err)\<rparr>))"
proof -
  let ?run = "run_subprocess args' live True c"
  have 1: "wait_result c = Some (Inr rc) \<and> rc \<noteq> 0 \<and> a = args' \<and>
      out = Some (bytes_read Stdout (trace (snd ?run))) \<and>
      err = Some (bytes_read Stderr (trace (snd ?run)))"
    if h: "fst ?run = Some (Inl (CalledProcessError rc a out err))"
  proof -
    from h have "completed (fst ?run)" by simp
    from run_completed[OF disjI1, OF this] h show ?thesis
      by (auto split: if_splits)
  qed
  have 2: "wait_result c = Some (Inr 0) \<and>
      cp = \<lparr>args = args', returncode = 0,
            stdout = Some (bytes_read Stdout (trace (snd ?run))),
            stderr = Some (bytes_read Stderr (trace (snd ?run)))\<rparr>"
    if h: "fst ?run = Some (Inr cp)"
  proof -
    from h have "completed (fst ?run)" by simp
    from run_completed[OF disjI1, OF this] h show ?thesis
      by (auto split: if_splits)
  qed
  have 3: "fst ?run =
        Some (if rc' \<noteq> 0
              then Inl (CalledProcessError rc' args'
                     (Some (bytes_read Stdout (trace (snd ?run))))
                     (Some (bytes_read Stderr (trace (snd ?run)))))
              else Inr \<lparr>args = args', returncode = 0,
                     stdout = Some (bytes_read Stdout (trace (snd ?run))),
                     stderr = Some (bytes_read Stderr (trace (snd ?run)))\<rparr>)"
    if h: "Wait None \<in> set (trace (snd ?run))" "wait_result c = Some (Inr rc')"
  proof -
    from h have "Wait None \<in> set (trace (snd ?run)) \<and> (\<exists>rc. wait_result c = Some (Inr rc))"
      by simp
    from run_completed[OF disjI2, OF this] h(2) show ?thesis by auto
  qed
  have 4: "fst ?run =
        Some (if rc' \<noteq> 0
              then Inl (CalledProcessError rc' args' (Some (concat cs_out)) (Some (concat cs_err)))
              else Inr \<lparr>args = args', returncode = 0,
                     stdout = Some (concat cs_out), stderr = Some (concat cs_err)\<rparr>)"
    if h: "popen_result c = None" "select_results c = map Inr readys"
      "read_results c Stdout = map Inr cs_out" "[] \<notin> set cs_out"
      "read_results c Stderr = map Inr cs_err" "[] \<notin> set cs_err"
      "length cs_out < rounds Stdout readys" "length cs_err < rounds Stderr readys"
      "wait_result c = Some (Inr rc')"
    using run_scripted[OF h(3,4,5,6,2,1,9), of args' live] h(7,8) by blast
  from 1 2 3 4 show ?thesis by blast
qed

theorem run_subprocess_exit_code_witness:
  "fst (run_subprocess [''echo'', ''hello''] True True (hello_child 0)) =
     Some (Inr \<lparr>args = [''echo'', ''hello''], returncode = 0,
                 stdout = Some [0x68, 0x65, 0x6C, 0x6C, 0x6F, 0x0A], stderr = Some []\<rparr>)
   \<and> fst (run_subprocess [''echo'', ''hello''] True True (hello_child 2)) =
     Some (Inl (CalledProcessError 2 [''echo'', ''hello'']
                  (Some [0x68, 0x65, 0x6C, 0x6C, 0x6F, 0x0A]) (Some [])))
   \<and> wait_result (hello_child 2) = Some (Inr 2)"
proof -
  let ?hello = "[0x68, 0x65, 0x6C, 0x6C, 0x6F, 0x0A] :: bytes"
  have h: "popen_result (hello_child rc) = None"
    "select_results (hello_child rc) = map Inr [[Stdout, Stderr], [Stdout, Stderr]]"
    "read_results (hello_child rc) Stdout = map Inr [?hello]"
    "read_results (hello_child rc) Stderr = map Inr []"
    "wait_result (hello_child rc) = Some (Inr rc)" for rc
    by (simp_all add: hello_child_def child_of_def)
  have n: "[] \<notin> set [?hello]" "[] \<notin> set ([] :: bytes list)"
    "length [?hello] < rounds Stdout [[Stdout, Stderr], [Stdout, Stderr]]"
    "length ([] :: bytes list) < rounds Stderr [[Stdout, Stderr], [Stdout, Stderr]]"
    by (simp_all add: rounds_def)
  note t0 = run_subprocess_exit_code[where args' = "[''echo'', ''hello'']" and live = True
      and c = "hello_child 0" and rc' = 0 and readys = "[[Stdout, Stderr], [Stdout, Stderr]]"
      and cs_out = "[?hello]" and cs_err = "[]"]
  note t2 = run_subprocess_exit_code[where args' = "[''echo'', ''hello'']" and live = True
      and c = "hello_child 2" and rc' = 2 and readys = "[[Stdout, Stderr], [Stdout, Stderr]]"
      and cs_out = "[?hello]" and cs_err = "[]" and rc = 2 and a = "[''echo'', ''hello'']"
      and out = "Some ?hello" and err = "Some []"]
  have a: "fst (run_subprocess [''echo'', ''hello''] True True (hello_child 0)) =
     Some (Inr \<lparr>args = [''echo'', ''hello''], returncode = 0,
                 stdout = Some ?hello, stderr = Some []\<rparr>)"
    using t0 h[of 0] n by simp
  have b: "fst (run_subprocess [''echo'', ''hello''] True True (hello_child 2)) =
     Some (Inl (CalledProcessError 2 [''echo'', ''hello''] (Some ?hello) (Some [])))"
    using t2 h[of 2] n by simp
  have "fst (run_subprocess [''echo'', ''hello''] True True (hello_child 2)) =
          Some (Inl (CalledProcessError 2 [''echo'', ''hello''] (Some ?hello) (Some [])))
        \<longrightarrow> wait_result (hello_child 2) = Some (Inr 2)"
    using t2 by blast
  with b have c: "wait_result (hello_child 2) = Some (Inr 2)" by blast
  from a b c show ?thesis by simp
qed

section \<open>Live logging does not change what is captured\<close>

lemma agree_InrD:
  "agree (Some (Inr l), w) (Some (Inr l'), w')
     \<Longrightarrow> reads w = reads w' \<and> trace w = trace w' \<and> fds l = fds l' \<and> lists l = lists l'"
  by (simp add: agree_def)

lemma handle_fd_agree:
  assumes "agree (Some (Inr l), w) (Some (Inr l'), w')"
  shows "agree (Some (fst (handle_fd a fd l w)), snd (handle_fd a fd l w))
               (Some (fst (handle_fd b fd l' w')), snd (handle_fd b fd l' w'))"
proof -
  from assms have e: "reads w = reads w'" "trace w = trace w'" "fds l = fds l'" "lists l = lists l'"
    by (simp_all add: agree_def)
  then have nr: "next_read w' fd = next_read w fd" by (simp add: next_read_def)
  show ?thesis
  proof (cases rule: handle_fd_cases[of w fd a l])
    case (fault f v)
    then show ?thesis
      using e nr by (cases rule: handle_fd_cases[of w' fd b l']) (simp_all add: agree_def)
  next
    case (chunk c m v)
    then show ?thesis
      using e nr by (cases rule: handle_fd_cases[of w' fd b l']) (simp_all add: agree_def)
  next
    case (eof m v)
    then show ?thesis
      using e nr by (cases rule: handle_fd_cases[of w' fd b l']) (simp_all add: agree_def)
  next
    case (absent v)
    then show ?thesis
      using e nr by (cases rule: handle_fd_cases[of w' fd b l']) (simp_all add: agree_def)
  qed
qed

lemma for_ready_agree:
  assumes "agree (Some (Inr l), w) (Some (Inr l'), w')"
  shows "agree (Some (fst (for_ready a ret l w)), snd (for_ready a ret l w))
               (Some (fst (for_ready b ret l' w')), snd (for_ready b ret l' w'))"
  using assms
proof (induction ret arbitrary: l w l' w')
  case Nil
  then show ?case by simp
next
  case (Cons fd ret)
  obtain r v where h: "handle_fd a fd l w = (r, v)" by (cases "handle_fd a fd l w")
  obtain r' v' where h': "handle_fd b fd l' w' = (r', v')" by (cases "handle_fd b fd l' w'")
  from handle_fd_agree[OF Cons.prems, of a fd b] h h'
  have ag: "agree (Some r, v) (Some r', v')" by simp
  show ?case
  proof (cases r)
    case (Inl e)
    with ag have "r' = Inl e" by (simp add: agree_def)
    with Inl ag h h' show ?thesis by simp
  next
    case (Inr m)
    with ag obtain m' where "r' = Inr m'" by (cases r') (simp_all add: agree_def)
    with Inr ag h h' Cons.IH[of m v m' v'] show ?thesis by simp
  qed
qed

lemma drain_agree:
  assumes "agree (Some (Inr l), w) (Some (Inr l'), w')"
  shows "agree (drain a rs l w) (drain b rs l' w')"
  using assms
proof (induction rs arbitrary: l w l' w')
  case Nil
  then show ?case by (simp add: agree_def)
next
  case (Cons r rs)
  note e = agree_InrD[OF Cons.prems]
  show ?case
  proof (cases "fds l = []")
    case True
    with Cons.prems e show ?thesis by (simp add: agree_def)
  next
    case ne: False
    show ?thesis
    proof (cases r)
      case (Inl f)
      with ne e show ?thesis by (simp add: agree_def)
    next
      case (Inr ready)
      let ?ret = "filter (\<lambda>fd. fd \<in> set ready) (fds l)"
      let ?w = "w\<lparr>trace := trace w @ [Select (Inr ?ret)]\<rparr>"
      let ?w' = "w'\<lparr>trace := trace w' @ [Select (Inr ?ret)]\<rparr>"
      have "agree (Some (Inr l), ?w) (Some (Inr l'), ?w')" using e by (simp add: agree_def)
      note fa = for_ready_agree[OF this, of a ?ret b]
      obtain x v where f: "for_ready a ?ret l ?w = (x, v)" by (cases "for_ready a ?ret l ?w")
      obtain x' v' where f': "for_ready b ?ret l' ?w' = (x', v')" by (cases "for_ready b ?ret l' ?w'")
      from fa f f' have ag: "agree (Some x, v) (Some x', v')" by simp
      show ?thesis
      proof (cases x)
        case i: (Inl ex)
        with ag have "x' = Inl ex" by (simp add: agree_def)
        with i ag ne Inr f f' e show ?thesis by (simp add: agree_def)
      next
        case i: (Inr m)
        with ag obtain m' where "x' = Inr m'" by (cases x') (simp_all add: agree_def)
        with i ag ne Inr f f' e Cons.IH[of m v m' v'] show ?thesis by simp
      qed
    qed
  qed
qed

lemma try_body_agree:
  "fst (try_body a pipe c w) = fst (try_body b pipe c w)
   \<and> trace (snd (try_body a pipe c w)) = trace (snd (try_body b pipe c w))
   \<and> reads (snd (try_body a pipe c w)) = reads (snd (try_body b pipe c w))"
proof (cases pipe)
  case False
  then show ?thesis by (simp add: try_body_def)
next
  case True
  let ?l = "init_locals True"
  have "agree (Some (Inr ?l), w) (Some (Inr ?l), w)" by (simp add: agree_def)
  note d = drain_agree[OF this, of a "select_results c" b]
  obtain x v where f: "drain a (select_results c) ?l w = (x, v)"
    by (cases "drain a (select_results c) ?l w")
  obtain x' v' where f': "drain b (select_results c) ?l w = (x', v')"
    by (cases "drain b (select_results c) ?l w")
  from d f f' True show ?thesis
    by (auto simp: agree_def try_body_def Let_def split: option.splits sum.splits)
qed

lemma quiet_step:
  assumes "quiet (Inr l) w" and "fd \<in> set (fds l)"
  shows "quiet (fst (handle_fd False fd l w)) (snd (handle_fd False fd l w))"
proof -
  from assms(1) have di: "drain_inv (Inr l) w" and lg: "log w = []"
    and bf: "\<And>x. buffer (loggers l x) = []"
    by (simp_all add: quiet_def)
  note st = drain_inv_step[OF di assms(2), of False]
  show ?thesis
  proof (cases rule: handle_fd_cases[of w fd False l])
    case (fault f w')
    with st lg show ?thesis by (simp add: quiet_def)
  next
    case (chunk b l' w')
    with st lg bf show ?thesis by (simp add: quiet_def)
  next
    case (eof l' w')
    with st lg bf[of fd] bf show ?thesis by (simp add: quiet_def)
  next
    case (absent w')
    with assms(2) show ?thesis by simp
  qed
qed

lemma quiet_drain:
  "log (snd (drain False rs (init_locals True) (init_world c))) = []"
proof -
  have q0: "quiet (Inr (init_locals True)) (init_world c)"
  proof -
    have "buffer (loggers (init_locals True) fd) = []" for fd
      by (cases fd) (simp_all add: init_locals_def LineLogger_init_def)
    then show ?thesis
      by (simp add: quiet_def drain_inv_init) (simp add: init_world_def)
  qed
  have d: "case drain False rs (init_locals True) (init_world c) of
           (None, w') \<Rightarrow> \<exists>l'. fds l' \<noteq> [] \<and> quiet (Inr l') w'
         | (Some (Inl e), w') \<Rightarrow> quiet (Inl e) w'
         | (Some (Inr l'), w') \<Rightarrow> fds l' = [] \<and> quiet (Inr l') w'"
  proof (rule drain_rule[where I = quiet])
    show "quiet (Inr (init_locals True)) (init_world c)" by (rule q0)
  next
    fix l w assume "quiet (Inr l) w"
    then show "distinct (fds l)" by (simp add: quiet_def drain_inv_def)
  next
    fix l w x assume "quiet (Inr l) w"
    then show "quiet (Inr l) (w\<lparr>trace := trace w @ [Select (Inr x)]\<rparr>)"
      using drain_inv_select[of l w x] by (simp add: quiet_def)
  next
    fix l w f assume "quiet (Inr l) w"
    then show "quiet (Inl (LibraryError f)) (w\<lparr>trace := trace w @ [Select (Inl f)]\<rparr>)"
      using drain_inv_select_fault[of l w f] by (simp add: quiet_def)
  next
    fix fd l w assume "quiet (Inr l) w" "fd \<in> set (fds l)"
    then show "quiet (fst (handle_fd False fd l w)) (snd (handle_fd False fd l w))"
      by (rule quiet_step)
  qed
  obtain r w where e: "drain False rs (init_locals True) (init_world c) = (r, w)"
    by (cases "drain False rs (init_locals True) (init_world c)")
  with d show ?thesis
    by (auto simp: quiet_def split: option.splits sum.splits)
qed

lemma quiet_try_body: "log (snd (try_body False pipe c (init_world c))) = []"
proof (cases pipe)
  case False
  then show ?thesis
    by (simp add: try_body_def Let_def init_world_def split: option.splits sum.splits)
next
  case True
  obtain r w where e: "drain False (select_results c) (init_locals True) (init_world c) = (r, w)"
    by (cases "drain False (select_results c) (init_locals True) (init_world c)")
  with quiet_drain[of "select_results c" c] have "log w = []" by simp
  with e True show ?thesis
    by (auto simp: try_body_def Let_def split: option.splits sum.splits)
qed

text \<open>
  C7. For every command, every behaviour of the child and either value of
  \<open>pipe_output\<close>, the run with \<open>log_output_live=True\<close> and the run with
  \<open>log_output_live=False\<close> return the same value or raise the same exception, with
  the same captured standard output and standard error, after the same library
  calls; the flag decides only whether lines reach the logger, and without it
  nothing is logged.
\<close>

theorem live_logging_only_logs:
  "fst (run_subprocess args' True pipe c) = fst (run_subprocess args' False pipe c)
   \<and> trace (snd (run_subprocess args' True pipe c)) = trace (snd (run_subprocess args' False pipe c))
   \<and> reads (snd (run_subprocess args' True pipe c)) = reads (snd (run_subprocess args' False pipe c))
   \<and> log (snd (run_subprocess args' False pipe c)) = []"
proof (cases "popen_result c")
  case (Some f)
  then show ?thesis by (simp add: run_subprocess_def init_world_def)
next
  case None
  obtain r w where t: "try_body True pipe c (init_world c) = (r, w)"
    by (cases "try_body True pipe c (init_world c)")
  obtain r' w' where t': "try_body False pipe c (init_world c) = (r', w')"
    by (cases "try_body False pipe c (init_world c)")
  from try_body_agree[of True pipe c "init_world c" False] t t'
  have e: "r' = r" "trace w' = trace w" "reads w' = reads w" by simp_all
  from quiet_try_body[of pipe c] t' have q: "log w' = []" by simp
  show ?thesis
  proof (cases r)
    case n: None
    with None t t' e q show ?thesis by (simp add: run_subprocess_blocked)
  next
    case (Some x)
    show ?thesis
    proof (cases x)
      case (Inl e0)
      with Some None t t' e q
        run_subprocess_raised[OF None, of True pipe e0 w args']
        run_subprocess_raised[OF None, of False pipe e0 w' args']
      show ?thesis by simp
    next
      case (Inr y)
      obtain rc out err where "y = (rc, out, err)" by (cases y)
      with Inr Some None t t' e q
        run_subprocess_waited[OF None, of True pipe rc out err w args']
        run_subprocess_waited[OF None, of False pipe rc out err w' args']
      show ?thesis by simp
    qed
  qed
qed

theorem live_logging_only_logs_witness:
  "fst (run_subprocess [''echo'', ''hello''] False True (hello_child 2)) =
     Some (Inl (CalledProcessError 2 [''echo'', ''hello'']
                  (Some [0x68, 0x65, 0x6C, 0x6C, 0x6F, 0x0A]) (Some [])))
   \<and> log (snd (run_subprocess [''echo'', ''hello''] False True (hello_child 2))) = []"
  using live_logging_only_logs[of "[''echo'', ''hello'']" True "hello_child 2"]
  by (simp add: hello_2_fst)

end
